theory Spec2Isabelle
  imports Main
begin

section \<open>Strings, lines and JavaScript array slices\<close>

text \<open>
  The patch engine (\<open>lib/patch.ts\<close>, in its four-mode revision), the error classes
  (\<open>lib/errors.ts\<close>) and the numbered-line helpers (\<open>lib/markdown.ts\<close>) of notion-cli.

  A JavaScript string is modelled as a HOL \<open>string\<close>: the list of its code units, here
  restricted to the units 0..255. Numbers that the patch engine receives are the integers
  of the line-range syntax and are modelled as \<open>int\<close>; where a number is printed or
  divided, the integer stands for the double-precision number nearest to it. Calls of the
  logger are left out.
\<close>

definition nl :: char where
  "nl = CHR ''\<newline>''"

text \<open>\<open>s.split('\n')\<close>: never empty, the empty string gives one empty line.\<close>

fun split_nl :: "string \<Rightarrow> string list" where
  "split_nl [] = [[]]"
| "split_nl (c # cs) =
     (if c = nl then [] # split_nl cs
      else (case split_nl cs of [] \<Rightarrow> [[c]] | l # ls \<Rightarrow> (c # l) # ls))"

text \<open>\<open>xs.join('\n')\<close>.\<close>

fun join_nl :: "string list \<Rightarrow> string" where
  "join_nl [] = []"
| "join_nl [x] = x"
| "join_nl (x # y # ys) = x @ nl # join_nl (y # ys)"

text \<open>\<open>s.endsWith('\n')\<close>.\<close>

definition endsWith_nl :: "string \<Rightarrow> bool" where
  "endsWith_nl s = (s \<noteq> [] \<and> last s = nl)"

text \<open>
  \<open>xs.slice(b, e)\<close> on integer arguments: a negative index counts from the end, and both
  indices are clamped to the array.
\<close>

definition rel_index :: "nat \<Rightarrow> int \<Rightarrow> nat" where
  "rel_index n i = (if i < 0 then nat (max (int n + i) 0) else nat (min i (int n)))"

definition slice :: "'a list \<Rightarrow> int \<Rightarrow> int \<Rightarrow> 'a list" where
  "slice xs b e =
     (let k = rel_index (length xs) b; f = rel_index (length xs) e
      in take (f - k) (drop k xs))"

definition slice_from :: "'a list \<Rightarrow> int \<Rightarrow> 'a list" where
  "slice_from xs b = drop (rel_index (length xs) b) xs"

section \<open>Character classes of the regular expressions\<close>

definition cc :: "char \<Rightarrow> nat" where
  "cc c = of_char c"

definition is_digit :: "char \<Rightarrow> bool" where
  "is_digit c = (48 \<le> cc c \<and> cc c \<le> 57)"

definition is_upper :: "char \<Rightarrow> bool" where
  "is_upper c = (65 \<le> cc c \<and> cc c \<le> 90)"

definition is_lower :: "char \<Rightarrow> bool" where
  "is_lower c = (97 \<le> cc c \<and> cc c \<le> 122)"

text \<open>\<open>\w\<close>, the class that decides \<open>\b\<close>.\<close>

definition is_word :: "char \<Rightarrow> bool" where
  "is_word c = (is_digit c \<or> is_upper c \<or> is_lower c \<or> cc c = 95)"

text \<open>\<open>[A-Za-z0-9_-]\<close>.\<close>

definition is_token :: "char \<Rightarrow> bool" where
  "is_token c = (is_word c \<or> cc c = 45)"

text \<open>\<open>[a-f0-9]\<close> under the \<open>i\<close> flag.\<close>

definition is_hex :: "char \<Rightarrow> bool" where
  "is_hex c = (is_digit c \<or> (97 \<le> cc c \<and> cc c \<le> 102) \<or> (65 \<le> cc c \<and> cc c \<le> 70))"

text \<open>\<open>\s\<close> among the code units 0..255: TAB, LF, VT, FF, CR, space and NBSP.\<close>

definition is_space :: "char \<Rightarrow> bool" where
  "is_space c = ((9 \<le> cc c \<and> cc c \<le> 13) \<or> cc c = 32 \<or> cc c = 160)"

section \<open>Global regular-expression replacement\<close>

text \<open>
  A matcher answers, for the character before the current position (\<open>None\<close> at the start
  of the input) and the rest of the input, the length of the match that starts here.
\<close>

type_synonym matcher = "char option \<Rightarrow> string \<Rightarrow> nat option"

text \<open>
  \<open>s.replace(/re/g, r)\<close>: the leftmost match is replaced, the scan resumes right after it
  (the counter skips the matched characters), and a character where nothing matches is
  copied. None of the expressions below matches the empty string.
\<close>

fun replace_from :: "matcher \<Rightarrow> string \<Rightarrow> char option \<Rightarrow> nat \<Rightarrow> string \<Rightarrow> string" where
  "replace_from m r p k [] = []"
| "replace_from m r p (Suc k) (c # cs) = replace_from m r (Some c) k cs"
| "replace_from m r p 0 (c # cs) =
     (case m p (c # cs) of
        Some (Suc n) \<Rightarrow> r @ replace_from m r (Some c) n cs
      | _ \<Rightarrow> c # replace_from m r (Some c) 0 cs)"

definition replace_g :: "matcher \<Rightarrow> string \<Rightarrow> string \<Rightarrow> string" where
  "replace_g m r s = replace_from m r None 0 s"

definition nth_opt :: "string \<Rightarrow> nat \<Rightarrow> char option" where
  "nth_opt s k = (if k < length s then Some (s ! k) else None)"

definition word_opt :: "char option \<Rightarrow> bool" where
  "word_opt a = (case a of None \<Rightarrow> False | Some c \<Rightarrow> is_word c)"

text \<open>\<open>\b\<close> between two neighbouring positions.\<close>

definition wordb :: "char option \<Rightarrow> char option \<Rightarrow> bool" where
  "wordb a b = (word_opt a \<noteq> word_opt b)"

text \<open>
  A greedy quantifier followed by a condition: the longest repetition count \<open>k\<close> between
  \<open>lo\<close> and the greedy maximum that satisfies the condition, tried from the top down.
\<close>

fun backtrack :: "(nat \<Rightarrow> bool) \<Rightarrow> nat \<Rightarrow> nat \<Rightarrow> nat option" where
  "backtrack ok lo 0 = (if lo = 0 \<and> ok 0 then Some 0 else None)"
| "backtrack ok lo (Suc j) =
     (if Suc j < lo then None
      else if ok (Suc j) then Some (Suc j)
      else backtrack ok lo j)"

text \<open>\<open>/\b(lit[A-Za-z0-9_-]+)\b/\<close> for \<open>lit\<close> one of \<open>ntn_\<close> and \<open>secret_\<close>.\<close>

definition match_token :: "string \<Rightarrow> matcher" where
  "match_token lit p s =
     (if wordb p (nth_opt s 0) \<and> take (length lit) s = lit then
        (let t = drop (length lit) s;
             n = length (takeWhile is_token t)
         in map_option (\<lambda>k. length lit + k)
              (backtrack (\<lambda>k. wordb (nth_opt t (k - 1)) (nth_opt t k)) 1 n))
      else None)"

text \<open>\<open>/Bearer\s+[A-Za-z0-9_-]+/\<close>.\<close>

definition match_bearer :: matcher where
  "match_bearer p s =
     (if take 6 s = ''Bearer'' then
        (let t = drop 6 s;
             w = length (takeWhile is_space t);
             n = length (takeWhile is_token (drop w t))
         in if 1 \<le> w \<and> 1 \<le> n then Some (6 + w + n) else None)
      else None)"

text \<open>\<open>/\b[a-f0-9]{40,}\b/i\<close>.\<close>

definition match_hex :: matcher where
  "match_hex p s =
     (if wordb p (nth_opt s 0) then
        backtrack (\<lambda>k. wordb (nth_opt s (k - 1)) (nth_opt s k)) 40
          (length (takeWhile is_hex s))
      else None)"

definition REDACTED :: string where
  "REDACTED = ''[REDACTED]''"

definition sanitizeMessage :: "string \<Rightarrow> string" where
  "sanitizeMessage message =
     replace_g match_hex REDACTED
       (replace_g match_bearer (''Bearer '' @ REDACTED)
          (replace_g (match_token ''secret_'') REDACTED
             (replace_g (match_token ''ntn_'') REDACTED message)))"

section \<open>Numbers as text\<close>

text \<open>
  \<open>String(n)\<close> for the length of an array or an index into it (below \<open>2^32\<close>): the
  decimal digits.
\<close>

definition digit_char :: "nat \<Rightarrow> char" where
  "digit_char d = char_of (48 + d)"

function String_nat :: "nat \<Rightarrow> string" where
  "String_nat n = (if n < 10 then [digit_char n] else String_nat (n div 10) @ [digit_char (n mod 10)])"
  by pat_completeness auto
termination
  by (relation "measure id") auto

declare String_nat.simps [simp del]

text \<open>
  A JavaScript number is a double: 53 significant bits, rounded to nearest, ties to even,
  and \<open>Infinity\<close> from \<open>2^1024\<close> on. \<open>nearest_double n\<close> is the double that the integer
  \<open>n \<ge> 0\<close> stands for, \<open>None\<close> for \<open>Infinity\<close>.
\<close>

function decimal :: "int \<Rightarrow> string" where
  "decimal n = (if n < 10 then [digit_char (nat n)] else decimal (n div 10) @ [digit_char (nat (n mod 10))])"
  by pat_completeness auto
termination
  by (relation "measure nat") auto

declare decimal.simps [simp del]

function bit_length :: "int \<Rightarrow> nat" where
  "bit_length n = (if n \<le> 0 then 0 else Suc (bit_length (n div 2)))"
  by pat_completeness auto
termination
  by (relation "measure nat") auto

declare bit_length.simps [simp del]

definition round_div :: "int \<Rightarrow> int \<Rightarrow> int" where
  "round_div a b =
     (let q = a div b; r = a mod b
      in if b < 2 * r \<or> (2 * r = b \<and> odd q) then q + 1 else q)"

definition nearest_double :: "int \<Rightarrow> int option" where
  "nearest_double n =
     (let sh = bit_length n - 53;
          d = round_div n (2 ^ sh) * 2 ^ sh
      in if 1024 < bit_length d then None else Some d)"

text \<open>
  \<open>Number::toString\<close> of a positive integer-valued double \<open>d\<close>. Its digits are those of
  the integer with the fewest significant digits that still denotes \<open>d\<close>, the closest to
  \<open>d\<close> among those, and the one with an even last digit when two are equally close;
  17 digits always suffice. \<open>candidate d k\<close> is that integer among those of \<open>k\<close>
  significant digits, if there is one. With at most 21 digits the number is printed in
  full; a longer one is printed as first digit, the remaining significant digits after a
  point, and the exponent.
\<close>

definition candidate :: "int \<Rightarrow> nat \<Rightarrow> int option" where
  "candidate d k =
     (let p = 10 ^ (length (decimal d) - k);
          lo = (d div p) * p;
          hi = lo + p;
          vl = (nearest_double lo = Some d);
          vh = (nearest_double hi = Some d)
      in if vl \<and> vh then
           Some (if d - lo < hi - d then lo
                 else if hi - d < d - lo then hi
                 else if even (d div p) then lo else hi)
         else if vl then Some lo
         else if vh then Some hi
         else None)"

function shortest_from :: "nat \<Rightarrow> int \<Rightarrow> int" where
  "shortest_from k d =
     (if 17 < k then d
      else case candidate d k of Some v \<Rightarrow> v | None \<Rightarrow> shortest_from (Suc k) d)"
  by pat_completeness auto
termination
  by (relation "measure (\<lambda>(k, d). 18 - k)") auto

declare shortest_from.simps [simp del]

definition Number_toString :: "int \<Rightarrow> string" where
  "Number_toString d =
     (let ds = decimal (shortest_from 1 d);
          n = length ds;
          s = rev (dropWhile (\<lambda>c. c = CHR ''0'') (rev ds))
      in if n \<le> 21 then ds
         else hd s # (if tl s = [] then [] else CHR ''.'' # tl s) @ ''e+'' @ decimal (int n - 1))"

text \<open>\<open>String(n)\<close> for a number \<open>n\<close> of the engine.\<close>

definition String_int :: "int \<Rightarrow> string" where
  "String_int i =
     (if i = 0 then ''0''
      else (if i < 0 then ''-'' else []) @
           (case nearest_double \<bar>i\<bar> of
              None \<Rightarrow> ''Infinity''
            | Some d \<Rightarrow> Number_toString d))"

text \<open>
  \<open>Math.ceil(a / b)\<close> for a positive integer \<open>b\<close> that is a double. The quotient of the
  doubles is rounded to 53 bits: \<open>quotient_double d b\<close> is the rounded quotient as a
  fraction whose denominator is a power of two. An infinite result is \<open>2^1024\<close> with its
  sign, which \<open>String_int\<close> prints as \<open>Infinity\<close>.
\<close>

definition quotient_double :: "int \<Rightarrow> int \<Rightarrow> int \<times> int" where
  "quotient_double d b =
     (let k = bit_length b;
          l = bit_length ((d * 2 ^ k) div b)
      in if 53 + k \<le> l then (round_div d (b * 2 ^ (l - (53 + k))) * 2 ^ (l - (53 + k)), 1)
         else (round_div (d * 2 ^ (53 + k - l)) b, 2 ^ (53 + k - l)))"

definition ceil_div :: "int \<Rightarrow> int \<Rightarrow> int" where
  "ceil_div a b =
     (if a = 0 then 0
      else case nearest_double \<bar>a\<bar> of
             None \<Rightarrow> (if a < 0 then - (2 ^ 1024) else 2 ^ 1024)
           | Some d \<Rightarrow>
               (let (m, t) = quotient_double d b
                in if a < 0 then - (m div t) else - ((- m) div t)))"

text \<open>\<open>s.startsWith(p)\<close> and \<open>s.includes(t)\<close>.\<close>

definition startsWith :: "string \<Rightarrow> string \<Rightarrow> bool" where
  "startsWith s p = (take (length p) s = p)"

fun includes_str :: "string \<Rightarrow> string \<Rightarrow> bool" where
  "includes_str [] t = (t = [])"
| "includes_str (c # cs) t = (startsWith (c # cs) t \<or> includes_str cs t)"

section \<open>Errors\<close>

text \<open>
  The exit codes are an enumeration of \<open>types.ts\<close>; only their tags matter here. The
  classes \<open>CliError\<close>, \<open>AuthError\<close>, \<open>ValidationError\<close>, \<open>NotFoundError\<close>,
  \<open>RateLimitError\<close> and \<open>PatchConflictError\<close> are one record whose \<open>name\<close> tells the class;
  \<open>retryAfterMs\<close> is set by \<open>RateLimitError\<close> alone. The untyped \<open>details\<close> payload is
  left out. Every constructor passes its message through \<open>sanitizeMessage\<close>.
\<close>

datatype ExitCode = GENERAL_ERROR | VALIDATION_ERROR | AUTH_ERROR | NOT_FOUND | RATE_LIMITED

record CliError =
  name :: string
  message :: string
  code :: string
  exitCode :: ExitCode
  retryAfterMs :: "int option"

definition new_CliError :: "string \<Rightarrow> string \<Rightarrow> ExitCode \<Rightarrow> CliError" where
  "new_CliError msg c e =
     \<lparr>name = ''CliError'', message = sanitizeMessage msg, code = c, exitCode = e,
      retryAfterMs = None\<rparr>"

definition new_AuthError :: "string \<Rightarrow> CliError" where
  "new_AuthError msg = (new_CliError msg ''AUTH_ERROR'' AUTH_ERROR)\<lparr>name := ''AuthError''\<rparr>"

definition default_AuthError :: CliError where
  "default_AuthError = new_AuthError ''Authentication failed. Set NOTION_TOKEN or use --token.''"

definition new_ValidationError :: "string \<Rightarrow> CliError" where
  "new_ValidationError msg =
     (new_CliError msg ''VALIDATION_ERROR'' VALIDATION_ERROR)\<lparr>name := ''ValidationError''\<rparr>"

definition new_NotFoundError :: "string \<Rightarrow> string \<Rightarrow> CliError" where
  "new_NotFoundError resource ident =
     (new_CliError (resource @ '' not found: '' @ ident) ''NOT_FOUND'' NOT_FOUND)
       \<lparr>name := ''NotFoundError''\<rparr>"

definition new_RateLimitError :: "int \<Rightarrow> CliError" where
  "new_RateLimitError ms =
     (new_CliError
        (''Rate limited by Notion API. Retry after '' @ String_int (ceil_div ms 1000) @ ''s.'')
        ''RATE_LIMITED'' RATE_LIMITED)
       \<lparr>name := ''RateLimitError'', retryAfterMs := Some ms\<rparr>"

definition new_PatchConflictError :: "string \<Rightarrow> CliError" where
  "new_PatchConflictError msg =
     (new_CliError msg ''PATCH_CONFLICT'' GENERAL_ERROR)\<lparr>name := ''PatchConflictError''\<rparr>"

text \<open>
  What \<open>toCliError\<close> can be handed: a \<open>CliError\<close>, another \<open>Error\<close> (with the optional
  \<open>status\<close> and \<open>code\<close> of the remote API's errors, and whatever retry-after hint the
  response carried), or any other value, of which only \<open>String(err)\<close> is used.
\<close>

record ApiError =
  err_message :: string
  status :: "int option"
  err_code :: "string option"
  retry_after_hint :: "int option"

datatype thrown = ThrownCli CliError | ThrownError ApiError | ThrownOther string

fun toCliError :: "thrown \<Rightarrow> CliError" where
  "toCliError (ThrownCli err) = err"
| "toCliError (ThrownError notionErr) =
     (if status notionErr = Some 401 \<or> err_code notionErr = Some ''unauthorized''
        then default_AuthError
      else if status notionErr = Some 404 \<or> err_code notionErr = Some ''object_not_found''
        then new_NotFoundError ''Resource'' ''unknown''
      else if status notionErr = Some 429
        then new_RateLimitError 1000
      else new_CliError (err_message notionErr) ''GENERAL_ERROR'' GENERAL_ERROR)"
| "toCliError (ThrownOther s) = new_CliError s ''GENERAL_ERROR'' GENERAL_ERROR"

section \<open>The patch engine\<close>

text \<open>
  The two functions of the \<open>diff\<close> package are parameters of the engine:
  \<open>createTwoFilesPatch oldFileName newFileName oldStr newStr oldHeader newHeader context\<close>
  and \<open>applyPatch source patch fuzzFactor\<close>. The latter has three outcomes: it returns
  the patched text, it returns \<open>false\<close> when a hunk cannot be placed, or it throws an
  \<open>Error\<close> of its own, of which the message is kept.
\<close>

datatype patch_outcome = Patched string | NoMatch | Throws string

record diff_library =
  createTwoFilesPatch ::
    "string \<Rightarrow> string \<Rightarrow> string \<Rightarrow> string \<Rightarrow> string \<Rightarrow> string \<Rightarrow> nat \<Rightarrow> string"
  applyPatch :: "string \<Rightarrow> string \<Rightarrow> nat \<Rightarrow> patch_outcome"

record PatchResult =
  patched :: string
  diff :: string
  linesChanged :: nat

text \<open>The \<open>end\<close> of a line range is a number or \<open>Infinity\<close>.\<close>

datatype line_end = Line int | Infinity

datatype PatchOperation =
    PatchLineRange int line_end string
  | PatchDiff string
  | PatchAppend string
  | PatchPrepend string

text \<open>
  The three refinements of \<open>lineRangeSchema\<close> (\<open>lib/validator.ts\<close>) on the two numbers
  parsed from the range syntax \<open>START:END\<close>, which is how a numeric end reaches the
  engine.
\<close>

definition lineRangeSchema_refine :: "int \<Rightarrow> int \<Rightarrow> bool" where
  "lineRangeSchema_refine start e = (start \<ge> 1 \<and> e \<ge> 1 \<and> e \<ge> start)"

text \<open>
  An operation returns its result (\<open>Inr\<close>) or throws (\<open>Inl\<close>): a \<open>CliError\<close> of the
  engine, or the \<open>Error\<close> of the package, which the engine does not catch and which has
  neither status nor code.
\<close>

definition plain_Error :: "string \<Rightarrow> thrown" where
  "plain_Error msg =
     ThrownError \<lparr>err_message = msg, status = None, err_code = None, retry_after_hint = None\<rparr>"

text \<open>The loop of \<open>buildResult\<close> over the lines of the diff, on the pair (added, removed).\<close>

definition count_line :: "string \<Rightarrow> nat \<times> nat \<Rightarrow> nat \<times> nat" where
  "count_line line ar =
     (let added = (if startsWith line ''+'' \<and> \<not> startsWith line ''+++'' then fst ar + 1 else fst ar);
          removed = (if startsWith line ''-'' \<and> \<not> startsWith line ''---'' then snd ar + 1 else snd ar)
      in (added, removed))"

definition buildResult :: "diff_library \<Rightarrow> string \<Rightarrow> string \<Rightarrow> PatchResult" where
  "buildResult lib original new_text =
     (let d = createTwoFilesPatch lib ''before'' ''after'' original new_text [] [] 3;
          diffLines = split_nl d;
          ar = fold count_line diffLines (0, 0)
      in \<lparr>patched = new_text, diff = d, linesChanged = fst ar + snd ar\<rparr>)"

definition applyLineRange ::
  "diff_library \<Rightarrow> string \<Rightarrow> int \<Rightarrow> line_end \<Rightarrow> string \<Rightarrow> thrown + PatchResult" where
  "applyLineRange lib original start e content =
     (let lines = split_nl original;
          totalLines = int (length lines)
      in if start < 1 then Inl (ThrownCli (new_ValidationError ''Line range start must be >= 1.''))
         else
           (let effectiveEnd = (case e of Infinity \<Rightarrow> totalLines | Line n \<Rightarrow> min n totalLines)
            in if start > totalLines + 1 then
                 Inl (ThrownCli (new_ValidationError
                        (''Start line '' @ String_int start @ '' exceeds document length ('' @
                         String_int totalLines @ '' lines).'')))
               else
                 (let before = slice lines 0 (start - 1);
                      after = slice_from lines effectiveEnd;
                      newLines = (if content = [] then [] else split_nl content)
                  in Inr (buildResult lib original (join_nl (before @ newLines @ after))))))"

definition applyUnifiedDiff :: "diff_library \<Rightarrow> string \<Rightarrow> string \<Rightarrow> thrown + PatchResult" where
  "applyUnifiedDiff lib original patch =
     (case applyPatch lib original patch 2 of
        Throws msg \<Rightarrow> Inl (plain_Error msg)
      | NoMatch \<Rightarrow>
          Inl (ThrownCli (new_PatchConflictError
                 (''Failed to apply patch. The page content may have changed since the diff was created. '' @
                  ''Re-read the page with `page read --numbered-lines` and create a new diff.'')))
      | Patched result \<Rightarrow> Inr (buildResult lib original result))"

definition applyAppend :: "diff_library \<Rightarrow> string \<Rightarrow> string \<Rightarrow> thrown + PatchResult" where
  "applyAppend lib original content =
     Inr (buildResult lib original
            (if endsWith_nl original then original @ content else original @ nl # content))"

definition applyPrepend :: "diff_library \<Rightarrow> string \<Rightarrow> string \<Rightarrow> thrown + PatchResult" where
  "applyPrepend lib original content = Inr (buildResult lib original (content @ nl # original))"

fun applyPatchOperation :: "diff_library \<Rightarrow> string \<Rightarrow> PatchOperation \<Rightarrow> thrown + PatchResult" where
  "applyPatchOperation lib original (PatchLineRange start e content) =
     applyLineRange lib original start e content"
| "applyPatchOperation lib original (PatchDiff patch) = applyUnifiedDiff lib original patch"
| "applyPatchOperation lib original (PatchAppend content) = applyAppend lib original content"
| "applyPatchOperation lib original (PatchPrepend content) = applyPrepend lib original content"

section \<open>Numbered lines\<close>

text \<open>\<open>s.padStart(w)\<close>.\<close>

definition padStart :: "nat \<Rightarrow> string \<Rightarrow> string" where
  "padStart w s = replicate (w - length s) (CHR '' '') @ s"

definition number_line :: "nat \<Rightarrow> nat \<times> string \<Rightarrow> string" where
  "number_line padWidth il = padStart padWidth (String_nat (fst il + 1)) @ '': '' @ snd il"

definition addLineNumbers :: "string \<Rightarrow> string" where
  "addLineNumbers markdown =
     (let lines = split_nl markdown;
          padWidth = length (String_nat (length lines))
      in join_nl (map (number_line padWidth) (enumerate 0 lines)))"

text \<open>
  \<open>line.replace(/^\s*\d+:\s?/, '')\<close>. The expression is anchored at the start of the line
  and its classes are disjoint, so the greedy attempt is the only possible match: all
  leading white space, then all following digits (at least one), then a colon, then one
  more white-space character when there is one.
\<close>

definition strip_number :: "string \<Rightarrow> string" where
  "strip_number line =
     (let r1 = dropWhile is_space line;
          ds = takeWhile is_digit r1;
          r2 = dropWhile is_digit r1
      in if ds \<noteq> [] \<and> take 1 r2 = '':'' then
           (case tl r2 of [] \<Rightarrow> [] | c # cs \<Rightarrow> if is_space c then cs else c # cs)
         else line)"

definition stripLineNumbers :: "string \<Rightarrow> string" where
  "stripLineNumbers numbered = join_nl (map strip_number (split_nl numbered))"

section \<open>Reading results\<close>

text \<open>The patched text of a successful operation; \<open>None\<close> when it threw.\<close>

definition patched_of :: "thrown + PatchResult \<Rightarrow> string option" where
  "patched_of r = (case r of Inl _ \<Rightarrow> None | Inr x \<Rightarrow> Some (patched x))"


section \<open>The line-range rule in the specification's words\<close>

text \<open>
  The specification builds the result of a line-range operation from the lines of the
  original: \<open>effectiveEnd = min(end, totalLines)\<close>, the sentinel resolving to
  \<open>totalLines\<close>; the content's lines are the empty sequence when the content is empty;
  the result is the first \<open>start - 1\<close> lines, the content's lines, and the lines after
  \<open>effectiveEnd\<close>.
\<close>

definition effective_end :: "string \<Rightarrow> line_end \<Rightarrow> nat" where
  "effective_end original e =
     (case e of Infinity \<Rightarrow> length (split_nl original)
      | Line n \<Rightarrow> min (nat n) (length (split_nl original)))"

definition content_lines :: "string \<Rightarrow> string list" where
  "content_lines content = (if content = [] then [] else split_nl content)"

definition replaced_lines :: "string \<Rightarrow> int \<Rightarrow> line_end \<Rightarrow> string \<Rightarrow> string list" where
  "replaced_lines original start e content =
     take (nat (start - 1)) (split_nl original) @ content_lines content @
     drop (effective_end original e) (split_nl original)"

text \<open>
  A diff package that reports an empty diff and applies nothing, for closed examples about
  the patched text, which does not depend on the package.
\<close>

definition no_diff_library :: diff_library where
  "no_diff_library = \<lparr>createTwoFilesPatch = (\<lambda>_ _ _ _ _ _ _. []), applyPatch = (\<lambda>_ _ _. NoMatch)\<rparr>"

section \<open>Examples, and the change count in the specification's words\<close>

text \<open>A 429 failure that carries a retry-after hint of five seconds.\<close>

definition throttled_example :: ApiError where
  "throttled_example =
     \<lparr>err_message = ''Rate limited'', status = Some 429, err_code = Some ''rate_limited'',
      retry_after_hint = Some 5000\<rparr>"




text \<open>
  The change count in the specification's words: the diff lines that begin with \<open>+\<close> or
  \<open>-\<close>, the two file-header lines excluded.
\<close>

definition diff_changed_lines :: "string \<Rightarrow> nat" where
  "diff_changed_lines d =
     length (filter (\<lambda>line. startsWith line ''+'' \<or> startsWith line ''-'') (split_nl d)) - 2"

text \<open>
  The unified diff, with three lines of context, between the four lines \<open>a\<close>, \<open>---\<close>,
  \<open>b\<close>, (empty) and the three lines \<open>a\<close>, \<open>b\<close>, (empty), as \<open>createTwoFilesPatch\<close>
  prints it: a separator line, the two header lines (file name, TAB, empty header), one
  hunk that removes the line \<open>---\<close>, and a final line break.
\<close>

definition rule_removed_diff :: string where
  "rule_removed_diff =
     join_nl [replicate 67 (CHR ''=''),
              ''--- before'' @ [CHR 0x09],
              ''+++ after'' @ [CHR 0x09],
              ''@@ -1,3 +1,2 @@'',
              '' a'',
              ''----'',
              '' b'',
              '''']"

definition rule_example_library :: diff_library where
  "rule_example_library =
     \<lparr>createTwoFilesPatch = (\<lambda>_ _ _ _ _ _ _. rule_removed_diff), applyPatch = (\<lambda>_ _ _. NoMatch)\<rparr>"

section \<open>Matches that remain in a text\<close>

text \<open>A matcher hits at a position when it reports a non-empty match there.\<close>

definition hit :: "matcher \<Rightarrow> char option \<Rightarrow> string \<Rightarrow> bool" where
  "hit m p s = (case m p s of Some (Suc n) \<Rightarrow> True | _ \<Rightarrow> False)"

text \<open>
  \<open>occurs Q p s\<close>: the condition \<open>Q\<close> holds at some position of \<open>s\<close>, where \<open>p\<close> is the
  character before \<open>s\<close>; \<open>occurs_within Q p r x\<close> restricts the positions to those of \<open>r\<close>
  in \<open>r @ x\<close>.
\<close>

fun occurs :: "(char option \<Rightarrow> string \<Rightarrow> bool) \<Rightarrow> char option \<Rightarrow> string \<Rightarrow> bool" where
  "occurs Q p [] = False"
| "occurs Q p (c # cs) = (Q p (c # cs) \<or> occurs Q (Some c) cs)"

fun occurs_within :: "(char option \<Rightarrow> string \<Rightarrow> bool) \<Rightarrow> char option \<Rightarrow> string \<Rightarrow> string \<Rightarrow> bool" where
  "occurs_within Q p [] x = False"
| "occurs_within Q p (c # cs) x = (Q p (c # cs @ x) \<or> occurs_within Q (Some c) cs x)"

text \<open>The character before the position that follows \<open>u\<close>.\<close>

definition last_or :: "char option \<Rightarrow> string \<Rightarrow> char option" where
  "last_or p u = (if u = [] then p else Some (last u))"

text \<open>
  What the proofs use of the literal prefixes \<open>ntn_\<close> and \<open>secret_\<close>: the prefix is not
  empty, begins with a word character that does not occur in a replacement text, and
  consists of characters of the class \<open>[A-Za-z0-9_-]\<close>.
\<close>

definition token_lit :: "string \<Rightarrow> bool" where
  "token_lit lit = (lit \<noteq> [] \<and> is_word (hd lit) \<and> list_all is_token lit \<and>
     hd lit \<notin> set (''Bearer '' @ REDACTED))"

text \<open>The regular expression matches somewhere in the text.\<close>

definition has_match :: "matcher \<Rightarrow> string \<Rightarrow> bool" where
  "has_match m s = occurs (hit m) None s"

text \<open>The text contains \<open>n\<close> or more consecutive hexadecimal digits.\<close>

fun has_hex_run :: "nat \<Rightarrow> string \<Rightarrow> bool" where
  "has_hex_run n [] = (n = 0)"
| "has_hex_run n (c # cs) = (n \<le> length (takeWhile is_hex (c # cs)) \<or> has_hex_run n cs)"


section \<open>Evaluating the character classes\<close>

text \<open>
  The classes are ranges of code units; for evaluation each is also given on the bits of
  the character.
\<close>

lemma cc_Char:
  "cc (Char b0 b1 b2 b3 b4 b5 b6 b7) =
     of_bool b0 + 2 * of_bool b1 + 4 * of_bool b2 + 8 * of_bool b3 + 16 * of_bool b4 +
     32 * of_bool b5 + 64 * of_bool b6 + 128 * of_bool b7"
  by (simp add: cc_def)

lemma is_digit_code [code]:
  "is_digit (Char b0 b1 b2 b3 b4 b5 b6 b7) =
     (b4 \<and> b5 \<and> \<not> b6 \<and> \<not> b7 \<and> (\<not> b3 \<or> (\<not> b2 \<and> \<not> b1)))"
  unfolding is_digit_def cc_Char
  by (cases b0; cases b1; cases b2; cases b3; cases b4; cases b5; cases b6; cases b7; simp)

lemma is_upper_code [code]:
  "is_upper (Char b0 b1 b2 b3 b4 b5 b6 b7) =
     (\<not> b5 \<and> b6 \<and> \<not> b7 \<and> (b0 \<or> b1 \<or> b2 \<or> b3 \<or> b4) \<and>
      \<not> (b4 \<and> b3 \<and> (b2 \<or> (b1 \<and> b0))))"
  unfolding is_upper_def cc_Char
  by (cases b0; cases b1; cases b2; cases b3; cases b4; cases b5; cases b6; cases b7; simp)

lemma is_lower_code [code]:
  "is_lower (Char b0 b1 b2 b3 b4 b5 b6 b7) =
     (b5 \<and> b6 \<and> \<not> b7 \<and> (b0 \<or> b1 \<or> b2 \<or> b3 \<or> b4) \<and>
      \<not> (b4 \<and> b3 \<and> (b2 \<or> (b1 \<and> b0))))"
  unfolding is_lower_def cc_Char
  by (cases b0; cases b1; cases b2; cases b3; cases b4; cases b5; cases b6; cases b7; simp)

lemma is_word_code [code]:
  "is_word c = (is_digit c \<or> is_upper c \<or> is_lower c \<or> c = CHR ''_'')"
  unfolding is_word_def cc_def by (cases c) auto

lemma is_token_code [code]:
  "is_token c = (is_word c \<or> c = CHR ''-'')"
  unfolding is_token_def cc_def by (cases c) auto

lemma is_hex_code [code]:
  "is_hex (Char b0 b1 b2 b3 b4 b5 b6 b7) =
     (is_digit (Char b0 b1 b2 b3 b4 b5 b6 b7) \<or>
      (\<not> b3 \<and> \<not> b4 \<and> b6 \<and> \<not> b7 \<and> (b0 \<or> b1 \<or> b2) \<and> \<not> (b0 \<and> b1 \<and> b2)))"
  unfolding is_hex_def is_digit_def cc_Char
  by (cases b0; cases b1; cases b2; cases b3; cases b4; cases b5; cases b6; cases b7; simp)

lemma is_space_code [code]:
  "is_space (Char b0 b1 b2 b3 b4 b5 b6 b7) =
     ((\<not> b4 \<and> \<not> b5 \<and> \<not> b6 \<and> \<not> b7 \<and> b3 \<and> (b0 \<or> b1 \<or> b2) \<and> \<not> (b2 \<and> b1)) \<or>
      (\<not> b0 \<and> \<not> b1 \<and> \<not> b2 \<and> \<not> b3 \<and> \<not> b4 \<and> b5 \<and> \<not> b6))"
  unfolding is_space_def cc_Char
  by (cases b0; cases b1; cases b2; cases b3; cases b4; cases b5; cases b6; cases b7; simp)

section \<open>Append, prepend and unified-diff modes\<close>

lemma patched_buildResult: "patched (buildResult lib original t) = t"
  by (simp add: buildResult_def Let_def)

text \<open>
  What the loop of \<open>buildResult\<close> counts: the diff lines that begin with \<open>+\<close> but not
  with \<open>+++\<close>, and those that begin with \<open>-\<close> but not with \<open>---\<close>.
\<close>

lemma fold_count_line:
  "fold count_line ls (a, r) =
     (a + length (filter (\<lambda>l. startsWith l ''+'' \<and> \<not> startsWith l ''+++'') ls),
      r + length (filter (\<lambda>l. startsWith l ''-'' \<and> \<not> startsWith l ''---'') ls))"
  by (induction ls arbitrary: a r) (simp_all add: count_line_def Let_def)





text \<open>
  C4. Append mode: when the original ends with a line break the patched text is the
  original directly followed by the content; otherwise exactly one line break stands
  between them. Either way the content follows a text that ends with a line break, so it
  starts on a line of its own.
\<close>

theorem append_starts_own_line:
  "patched_of (applyPatchOperation lib original (PatchAppend content)) =
     Some (if endsWith_nl original then original @ content else original @ nl # content)
   \<and> (\<exists>pre. endsWith_nl pre \<and>
         patched_of (applyPatchOperation lib original (PatchAppend content)) = Some (pre @ content))"
proof -
  have a: "patched_of (applyPatchOperation lib original (PatchAppend content)) =
     Some (if endsWith_nl original then original @ content else original @ nl # content)"
    by (simp add: patched_of_def applyAppend_def patched_buildResult)
  have "endsWith_nl (if endsWith_nl original then original else original @ [nl])"
    by (simp add: endsWith_nl_def)
  moreover have "(if endsWith_nl original then original @ content else original @ nl # content) =
     (if endsWith_nl original then original else original @ [nl]) @ content"
    by simp
  ultimately show ?thesis using a by metis
qed

text \<open>
  C5. Prepend mode: the patched text is the content, one line break, and the original,
  whatever the original starts with and whatever the content is.
\<close>

theorem prepend_one_line_break:
  "patched_of (applyPatchOperation lib original (PatchPrepend content)) =
     Some (content @ nl # original)"
  by (simp add: patched_of_def applyPrepend_def patched_buildResult)

section \<open>Lines\<close>

lemma split_nl_nonempty [simp]: "split_nl s \<noteq> []"
  by (induction s) (auto split: list.split)

lemma join_nl_Cons: "ys \<noteq> [] \<Longrightarrow> join_nl (x # ys) = x @ nl # join_nl ys"
  by (cases ys) auto

lemma join_nl_Cons_Cons: "join_nl ((c # l) # ls) = c # join_nl (l # ls)"
  by (cases ls) auto

lemma join_split_nl [simp]: "join_nl (split_nl s) = s"
proof (induction s)
  case Nil
  show ?case by simp
next
  case (Cons c cs)
  show ?case
  proof (cases "c = nl")
    case True
    with Cons show ?thesis by (simp add: join_nl_Cons)
  next
    case False
    obtain l ls where e: "split_nl cs = l # ls"
      by (cases "split_nl cs") auto
    with Cons False show ?thesis by (simp add: join_nl_Cons_Cons)
  qed
qed

lemma split_nl_no_nl: "nl \<notin> set x \<Longrightarrow> split_nl x = [x]"
  by (induction x) auto

lemma split_nl_append: "nl \<notin> set x \<Longrightarrow> split_nl (x @ nl # r) = x # split_nl r"
  by (induction x) auto

lemma split_nl_append_any: "split_nl (a @ nl # r) = butlast (split_nl a) @ (last (split_nl a)) # split_nl r"
proof (induction a)
  case Nil
  show ?case by simp
next
  case (Cons c cs)
  obtain l ls where e: "split_nl cs = l # ls"
    by (cases "split_nl cs") auto
  show ?case
  proof (cases "c = nl")
    case True
    with Cons show ?thesis by simp
  next
    case False
    with Cons e show ?thesis by (cases ls) auto
  qed
qed

lemma lines_no_nl: "l \<in> set (split_nl s) \<Longrightarrow> nl \<notin> set l"
proof (induction s arbitrary: l)
  case Nil
  then show ?case by simp
next
  case (Cons c cs)
  obtain k ks where e: "split_nl cs = k # ks"
    by (cases "split_nl cs") auto
  have k: "nl \<notin> set k" and ks: "\<And>x. x \<in> set ks \<Longrightarrow> nl \<notin> set x"
    using Cons.IH e by auto
  show ?case
  proof (cases "c = nl")
    case True
    with Cons.prems Cons.IH show ?thesis by auto
  next
    case False
    with Cons.prems e have "l = c # k \<or> l \<in> set ks" by auto
    with False k ks show ?thesis by auto
  qed
qed

lemma split_join_nl:
  "xs \<noteq> [] \<Longrightarrow> (\<And>l. l \<in> set xs \<Longrightarrow> nl \<notin> set l) \<Longrightarrow> split_nl (join_nl xs) = xs"
proof (induction xs rule: join_nl.induct)
  case 1
  then show ?case by simp
next
  case (2 x)
  then show ?case by (simp add: split_nl_no_nl)
next
  case (3 x y ys)
  then show ?case by (simp add: split_nl_append)
qed

lemma length_split_nl: "length (split_nl s) = Suc (count_list s nl)"
proof (induction s)
  case Nil
  show ?case by simp
next
  case (Cons c cs)
  obtain k ks where e: "split_nl cs = k # ks"
    by (cases "split_nl cs") auto
  with Cons show ?case by auto
qed

lemma join_nl_append:
  "xs \<noteq> [] \<Longrightarrow> ys \<noteq> [] \<Longrightarrow> join_nl (xs @ ys) = join_nl xs @ nl # join_nl ys"
proof (induction xs rule: join_nl.induct)
  case 1
  then show ?case by simp
next
  case (2 x)
  then show ?case by (simp add: join_nl_Cons)
next
  case (3 x y ys')
  then show ?case by simp
qed

section \<open>Line-range mode\<close>

lemma slice_prefix: "0 \<le> k \<Longrightarrow> slice xs 0 k = take (nat k) xs"
  by (auto simp: slice_def rel_index_def Let_def min_def)

lemma slice_from_nonneg: "0 \<le> k \<Longrightarrow> slice_from xs k = drop (nat k) xs"
  by (auto simp: slice_from_def rel_index_def min_def)

lemma content_lines_no_nl: "l \<in> set (content_lines c) \<Longrightarrow> nl \<notin> set l"
  by (auto simp: content_lines_def dest: lines_no_nl split: if_splits)

lemma join_content_lines: "join_nl (content_lines c) = c"
  by (simp add: content_lines_def)

lemma applyLineRange_ok:
  assumes "1 \<le> start" "start \<le> int (length (split_nl original)) + 1"
  shows "applyLineRange lib original start e content =
    Inr (buildResult lib original
      (join_nl (take (nat (start - 1)) (split_nl original) @ content_lines content @
         slice_from (split_nl original)
           (case e of Infinity \<Rightarrow> int (length (split_nl original))
            | Line n \<Rightarrow> min n (int (length (split_nl original)))))))"
  using assms by (simp add: applyLineRange_def Let_def slice_prefix content_lines_def)

lemma applyLineRange_replaced:
  assumes "1 \<le> start" "start \<le> int (length (split_nl original)) + 1"
    and "case e of Line n \<Rightarrow> 0 \<le> n | Infinity \<Rightarrow> True"
  shows "applyLineRange lib original start e content =
    Inr (buildResult lib original (join_nl (replaced_lines original start e content)))"
proof -
  have "slice_from (split_nl original)
           (case e of Infinity \<Rightarrow> int (length (split_nl original))
            | Line n \<Rightarrow> min n (int (length (split_nl original)))) =
        drop (effective_end original e) (split_nl original)"
    using assms(3) by (cases e) (auto simp: slice_from_nonneg effective_end_def min_def)
  then show ?thesis
    using applyLineRange_ok [OF assms(1,2)] by (simp add: replaced_lines_def)
qed

lemma replaced_lines_no_nl: "l \<in> set (replaced_lines original start e content) \<Longrightarrow> nl \<notin> set l"
  unfolding replaced_lines_def
  by (auto dest: lines_no_nl content_lines_no_nl in_set_takeD in_set_dropD)

text \<open>
  C1. For a line-range operation with \<open>1 \<le> start \<le> totalLines + 1\<close> and \<open>end \<ge> start\<close>
  (or the end-of-document sentinel), the operation succeeds and the patched text is the
  join of the first \<open>start - 1\<close> original lines, the content's lines (none for the empty
  content) and the original lines after \<open>min(end, totalLines)\<close>; an end beyond the document
  is clamped. Unless that sequence is empty, reading the patched text back line by line
  gives exactly that sequence, so the lines around the range are unchanged and in order.
\<close>

theorem line_range_replacement:
  assumes "1 \<le> start" and "start \<le> int (length (split_nl original)) + 1"
    and "case e of Line n \<Rightarrow> start \<le> n | Infinity \<Rightarrow> True"
  shows "applyPatchOperation lib original (PatchLineRange start e content) =
           Inr (buildResult lib original (join_nl (replaced_lines original start e content)))
         \<and> patched_of (applyPatchOperation lib original (PatchLineRange start e content)) =
           Some (join_nl (replaced_lines original start e content))
         \<and> (replaced_lines original start e content \<noteq> [] \<longrightarrow>
              split_nl (join_nl (replaced_lines original start e content)) =
              replaced_lines original start e content)"
proof -
  have "case e of Line n \<Rightarrow> 0 \<le> n | Infinity \<Rightarrow> True"
    using assms(1,3) by (cases e) auto
  from applyLineRange_replaced [OF assms(1,2) this]
  have "applyPatchOperation lib original (PatchLineRange start e content) =
           Inr (buildResult lib original (join_nl (replaced_lines original start e content)))"
    by simp
  moreover have "replaced_lines original start e content \<noteq> [] \<Longrightarrow>
              split_nl (join_nl (replaced_lines original start e content)) =
              replaced_lines original start e content"
    by (rule split_join_nl) (auto dest: replaced_lines_no_nl)
  ultimately show ?thesis
    by (simp add: patched_of_def patched_buildResult)
qed

theorem line_range_replacement_witness:
  "\<forall>lib. (1::int) \<le> 2 \<and> (2::int) \<le> int (length (split_nl ''a\<newline>b\<newline>c'')) + 1 \<and>
     replaced_lines ''a\<newline>b\<newline>c'' 2 (Line 5) ''x\<newline>y'' = [''a'', ''x'', ''y''] \<and>
     patched_of (applyPatchOperation lib ''a\<newline>b\<newline>c'' (PatchLineRange 2 (Line 5) ''x\<newline>y'')) =
       Some ''a\<newline>x\<newline>y'' \<and>
     split_nl ''a\<newline>x\<newline>y'' = [''a'', ''x'', ''y'']"
proof
  fix lib
  have l: "split_nl ''a\<newline>b\<newline>c'' = [''a'', ''b'', ''c'']" by code_simp
  have r: "replaced_lines ''a\<newline>b\<newline>c'' 2 (Line 5) ''x\<newline>y'' = [''a'', ''x'', ''y'']"
    by code_simp
  have j: "join_nl [''a'', ''x'', ''y''] = ''a\<newline>x\<newline>y''" by code_simp
  have s: "split_nl ''a\<newline>x\<newline>y'' = [''a'', ''x'', ''y'']" by code_simp
  have h1: "(1::int) \<le> 2" by simp
  have h2: "(2::int) \<le> int (length (split_nl ''a\<newline>b\<newline>c'')) + 1" unfolding l by simp
  have h3: "case Line 5 of Line n \<Rightarrow> 2 \<le> n | Infinity \<Rightarrow> True" by simp
  have "patched_of (applyPatchOperation lib ''a\<newline>b\<newline>c'' (PatchLineRange 2 (Line 5) ''x\<newline>y'')) =
       Some (join_nl (replaced_lines ''a\<newline>b\<newline>c'' 2 (Line 5) ''x\<newline>y''))"
    using line_range_replacement [OF h1 h2 h3, of lib "''x\<newline>y''"] by blast
  then have p: "patched_of (applyPatchOperation lib ''a\<newline>b\<newline>c'' (PatchLineRange 2 (Line 5) ''x\<newline>y'')) =
       Some ''a\<newline>x\<newline>y''"
    unfolding r j .
  show "(1::int) \<le> 2 \<and> (2::int) \<le> int (length (split_nl ''a\<newline>b\<newline>c'')) + 1 \<and>
     replaced_lines ''a\<newline>b\<newline>c'' 2 (Line 5) ''x\<newline>y'' = [''a'', ''x'', ''y''] \<and>
     patched_of (applyPatchOperation lib ''a\<newline>b\<newline>c'' (PatchLineRange 2 (Line 5) ''x\<newline>y'')) =
       Some ''a\<newline>x\<newline>y'' \<and>
     split_nl ''a\<newline>x\<newline>y'' = [''a'', ''x'', ''y'']"
    using h1 h2 r p s by blast
qed


lemma sanitize_start_message:
  "sanitizeMessage ''Line range start must be >= 1.'' = ''Line range start must be >= 1.''"
  by code_simp

lemma start_message_mentions:
  "includes_str ''Line range start must be >= 1.'' ''start must be >= 1''"
  by code_simp

lemma name_new_ValidationError: "name (new_ValidationError msg) = ''ValidationError''"
  by (simp add: new_ValidationError_def)

lemma applyLineRange_low:
  "start < 1 \<Longrightarrow> applyLineRange lib original start e content =
     Inl (ThrownCli
          \<lparr>name = ''ValidationError'', message = ''Line range start must be >= 1.'',
           code = ''VALIDATION_ERROR'', exitCode = VALIDATION_ERROR, retryAfterMs = None\<rparr>)"
  by (simp add: applyLineRange_def Let_def new_ValidationError_def new_CliError_def
      sanitize_start_message)

lemma applyLineRange_high:
  "\<not> start < 1 \<Longrightarrow> int (length (split_nl original)) + 1 < start \<Longrightarrow>
   applyLineRange lib original start e content =
     Inl (ThrownCli (new_ValidationError
            (''Start line '' @ String_int start @ '' exceeds document length ('' @
             String_int (int (length (split_nl original))) @ '' lines).'')))"
  by (simp add: applyLineRange_def Let_def)

lemma applyLineRange_isl:
  "isl (applyLineRange lib original start e content) =
     (start < 1 \<or> int (length (split_nl original)) + 1 < start)"
proof (cases "start < 1")
  case True
  then show ?thesis by (simp add: applyLineRange_low)
next
  case low: False
  show ?thesis
  proof (cases "int (length (split_nl original)) + 1 < start")
    case True
    with low show ?thesis by (simp add: applyLineRange_high)
  next
    case False
    with low show ?thesis by (simp add: applyLineRange_ok)
  qed
qed

lemma applyLineRange_error_name:
  "applyLineRange lib original start e content = Inl err \<Longrightarrow>
   \<exists>v. err = ThrownCli v \<and> name v = ''ValidationError''"
proof (cases "start < 1")
  case True
  assume "applyLineRange lib original start e content = Inl err"
  with True show ?thesis by (auto simp: applyLineRange_low)
next
  case low: False
  assume a: "applyLineRange lib original start e content = Inl err"
  show ?thesis
  proof (cases "int (length (split_nl original)) + 1 < start")
    case True
    with low a show ?thesis by (auto simp: applyLineRange_high name_new_ValidationError)
  next
    case False
    with low a show ?thesis by (simp add: applyLineRange_ok)
  qed
qed

lemma applyLineRange_append:
  assumes "start = int (length (split_nl original)) + 1" and "content \<noteq> []"
    and "case e of Line n \<Rightarrow> int (length (split_nl original)) \<le> n | Infinity \<Rightarrow> True"
  shows "patched_of (applyLineRange lib original start e content) = Some (original @ nl # content)"
proof -
  have e0: "case e of Line n \<Rightarrow> 0 \<le> n | Infinity \<Rightarrow> True"
    using assms(3) by (cases e) auto
  have ee: "effective_end original e = length (split_nl original)"
    using assms(3) by (cases e) (auto simp: effective_end_def)
  have "replaced_lines original start e content = split_nl original @ split_nl content"
    using assms(1,2) by (simp add: replaced_lines_def ee content_lines_def)
  then have "join_nl (replaced_lines original start e content) = original @ nl # content"
    by (simp add: join_nl_append)
  moreover have "1 \<le> start" "start \<le> int (length (split_nl original)) + 1"
    using assms(1) by simp_all
  ultimately show ?thesis
    using e0 by (simp add: applyLineRange_replaced patched_of_def patched_buildResult)
qed

text \<open>
  C2. A line-range operation throws if and only if \<open>start < 1\<close> or
  \<open>start > totalLines + 1\<close>, and what it throws is a \<open>ValidationError\<close>; for \<open>start < 1\<close>
  (so for \<open>start = 0\<close>, whatever the end) the message is
  \<open>Line range start must be >= 1.\<close>; and \<open>start = totalLines + 1\<close> with non-empty content
  is no error and appends the content's lines after the last line. The range of a
  line-range operation has \<open>end \<ge> start\<close> (the range syntax, \<open>lineRangeSchema\<close>, admits
  no other) or the sentinel as its end; the append is proved for every end from
  \<open>totalLines\<close> on, which covers both.
\<close>

theorem line_range_validation:
  "isl (applyPatchOperation lib original (PatchLineRange start e content)) =
     (start < 1 \<or> int (length (split_nl original)) + 1 < start)
   \<and> (\<forall>err. applyPatchOperation lib original (PatchLineRange start e content) = Inl err \<longrightarrow>
          (\<exists>v. err = ThrownCli v \<and> name v = ''ValidationError''))
   \<and> (start < 1 \<longrightarrow>
        applyPatchOperation lib original (PatchLineRange start e content) =
          Inl (ThrownCli
               \<lparr>name = ''ValidationError'', message = ''Line range start must be >= 1.'',
                code = ''VALIDATION_ERROR'', exitCode = VALIDATION_ERROR, retryAfterMs = None\<rparr>))
   \<and> includes_str ''Line range start must be >= 1.'' ''start must be >= 1''
   \<and> (start = int (length (split_nl original)) + 1 \<and> content \<noteq> [] \<and>
        (case e of Line n \<Rightarrow> int (length (split_nl original)) \<le> n | Infinity \<Rightarrow> True) \<longrightarrow>
        patched_of (applyPatchOperation lib original (PatchLineRange start e content)) =
          Some (original @ nl # content))"
  using applyLineRange_isl applyLineRange_error_name applyLineRange_low start_message_mentions
    applyLineRange_append
  by simp

theorem line_range_validation_witness:
  "\<forall>lib.
     applyPatchOperation lib ''a\<newline>b'' (PatchLineRange 0 (Line 7) ''x'') =
       Inl (ThrownCli
            \<lparr>name = ''ValidationError'', message = ''Line range start must be >= 1.'',
             code = ''VALIDATION_ERROR'', exitCode = VALIDATION_ERROR, retryAfterMs = None\<rparr>)
     \<and> isl (applyPatchOperation lib ''a\<newline>b'' (PatchLineRange 4 (Line 7) ''x''))
     \<and> (3::int) = int (length (split_nl ''a\<newline>b'')) + 1
     \<and> patched_of (applyPatchOperation lib ''a\<newline>b'' (PatchLineRange 3 (Line 3) ''x'')) =
         Some ''a\<newline>b\<newline>x''"
proof
  fix lib
  have l: "split_nl ''a\<newline>b'' = [''a'', ''b'']" by code_simp
  have n: "int (length (split_nl ''a\<newline>b'')) = 2" unfolding l by simp
  have a: "applyPatchOperation lib ''a\<newline>b'' (PatchLineRange 0 (Line 7) ''x'') =
       Inl (ThrownCli
            \<lparr>name = ''ValidationError'', message = ''Line range start must be >= 1.'',
             code = ''VALIDATION_ERROR'', exitCode = VALIDATION_ERROR, retryAfterMs = None\<rparr>)"
    using line_range_validation [of lib "''a\<newline>b''" 0 "Line 7" "''x''"] by simp
  have b: "isl (applyPatchOperation lib ''a\<newline>b'' (PatchLineRange 4 (Line 7) ''x''))"
    using line_range_validation [of lib "''a\<newline>b''" 4 "Line 7" "''x''"] unfolding n by simp
  have c: "(3::int) = int (length (split_nl ''a\<newline>b'')) + 1" unfolding n by simp
  have "patched_of (applyPatchOperation lib ''a\<newline>b'' (PatchLineRange 3 (Line 3) ''x'')) =
         Some (''a\<newline>b'' @ nl # ''x'')"
    using line_range_validation [of lib "''a\<newline>b''" 3 "Line 3" "''x''"] unfolding n by simp
  then have d: "patched_of (applyPatchOperation lib ''a\<newline>b'' (PatchLineRange 3 (Line 3) ''x'')) =
         Some ''a\<newline>b\<newline>x''"
    by (simp add: nl_def)
  show "applyPatchOperation lib ''a\<newline>b'' (PatchLineRange 0 (Line 7) ''x'') =
       Inl (ThrownCli
            \<lparr>name = ''ValidationError'', message = ''Line range start must be >= 1.'',
             code = ''VALIDATION_ERROR'', exitCode = VALIDATION_ERROR, retryAfterMs = None\<rparr>)
     \<and> isl (applyPatchOperation lib ''a\<newline>b'' (PatchLineRange 4 (Line 7) ''x''))
     \<and> (3::int) = int (length (split_nl ''a\<newline>b'')) + 1
     \<and> patched_of (applyPatchOperation lib ''a\<newline>b'' (PatchLineRange 3 (Line 3) ''x'')) =
         Some ''a\<newline>b\<newline>x''"
    using a b c d by blast
qed

text \<open>
  The engine itself does not compare the end with the start; a range with \<open>end < start\<close>
  is refused by \<open>lineRangeSchema\<close> before the engine is entered. Handed the range 3:1
  directly, with content \<open>x\<close> on the two lines \<open>a\<close>, \<open>b\<close>, it repeats the line after the
  end: \<open>a\<close>, \<open>b\<close>, \<open>x\<close>, \<open>b\<close>.
\<close>

lemma validated_range_appends:
  assumes "lineRangeSchema_refine start n"
    and "start = int (length (split_nl original)) + 1" and "content \<noteq> []"
  shows "patched_of (applyPatchOperation lib original (PatchLineRange start (Line n) content)) =
           Some (original @ nl # content)"
proof -
  from assms(1,2) have "int (length (split_nl original)) \<le> n"
    by (simp add: lineRangeSchema_refine_def)
  then have "case Line n of Line k \<Rightarrow> int (length (split_nl original)) \<le> k | Infinity \<Rightarrow> True"
    by simp
  with assms(2,3) show ?thesis
    unfolding applyPatchOperation.simps by (rule applyLineRange_append)
qed

lemma inverted_range_repeats_lines:
  "\<not> lineRangeSchema_refine 3 1
   \<and> patched_of (applyPatchOperation no_diff_library ''a\<newline>b'' (PatchLineRange 3 (Line 1) ''x'')) =
     Some ''a\<newline>b\<newline>x\<newline>b''"
  by code_simp

text \<open>
  A start beyond the document is refused with both numbers in the message, printed as
  \<open>String\<close> prints them: in full up to 21 digits, with an exponent from there on.
\<close>

text \<open>
  A start beyond the document is refused with both numbers in the message, printed as
  \<open>String\<close> prints them: in full up to 21 digits, with an exponent from there on.
\<close>

lemma start_exceeds_message:
  "applyPatchOperation no_diff_library ''a\<newline>b'' (PatchLineRange 4 (Line 7) ''x'') =
     Inl (ThrownCli
          \<lparr>name = ''ValidationError'',
           message = ''Start line 4 exceeds document length (2 lines).'',
           code = ''VALIDATION_ERROR'', exitCode = VALIDATION_ERROR, retryAfterMs = None\<rparr>)
   \<and> applyPatchOperation no_diff_library ''a\<newline>b'' (PatchLineRange (10 ^ 21) Infinity ''x'') =
     Inl (ThrownCli
          \<lparr>name = ''ValidationError'',
           message = ''Start line 1e+21 exceeds document length (2 lines).'',
           code = ''VALIDATION_ERROR'', exitCode = VALIDATION_ERROR, retryAfterMs = None\<rparr>)"
  by code_simp

lemma String_int_examples:
  "String_int 0 = ''0'' \<and> String_int (- 12) = ''-12''
   \<and> String_int 100000000000000000000 = ''100000000000000000000''
   \<and> String_int 999999999999999999999 = ''1e+21''"
  by code_simp

lemma rate_limit_message:
  "message (new_RateLimitError 1000) = ''Rate limited by Notion API. Retry after 1s.''
   \<and> message (new_RateLimitError 1001) = ''Rate limited by Notion API. Retry after 2s.''"
  by code_simp

section \<open>The empty document and a trailing line break\<close>

lemma split_nl_trailing:
  assumes "endsWith_nl s"
  shows "split_nl s = split_nl (butlast s) @ [[]]"
proof -
  from assms have s: "s = butlast s @ nl # []"
    by (simp add: endsWith_nl_def) (metis append_butlast_last_id)
  have "split_nl (butlast s @ nl # []) = butlast (split_nl (butlast s)) @ last (split_nl (butlast s)) # split_nl []"
    by (rule split_nl_append_any)
  then have "split_nl (butlast s @ nl # []) = split_nl (butlast s) @ [[]]"
    by simp
  with s show ?thesis by metis
qed

lemma applyLineRange_last_line:
  assumes "endsWith_nl original"
  shows "patched_of (applyLineRange lib original (int (length (split_nl original)))
            (Line (int (length (split_nl original)))) content) =
         Some (if content = [] then butlast original else original @ content)"
proof -
  let ?n = "length (split_nl original)"
  let ?b = "split_nl (butlast original)"
  have sp: "split_nl original = ?b @ [[]]"
    using assms by (rule split_nl_trailing)
  have n: "?n = Suc (length ?b)" by (simp add: sp)
  have o: "original = butlast original @ [nl]"
    using assms by (simp add: endsWith_nl_def) (metis append_butlast_last_id)
  have "replaced_lines original (int ?n) (Line (int ?n)) content = ?b @ content_lines content"
    unfolding replaced_lines_def effective_end_def by (simp add: n) (simp add: sp)
  then have "join_nl (replaced_lines original (int ?n) (Line (int ?n)) content) =
      (if content = [] then butlast original else butlast original @ nl # content)"
    by (simp add: content_lines_def join_nl_append)
  also have "\<dots> = (if content = [] then butlast original else original @ content)"
    using o by (metis append.assoc append_Cons append_Nil)
  finally have j: "join_nl (replaced_lines original (int ?n) (Line (int ?n)) content) =
      (if content = [] then butlast original else original @ content)" .
  have "1 \<le> int ?n" "int ?n \<le> int ?n + 1" "case Line (int ?n) of Line k \<Rightarrow> 0 \<le> k | Infinity \<Rightarrow> True"
    by (simp_all add: n)
  from applyLineRange_replaced [OF this] show ?thesis
    by (simp only: patched_of_def sum.case patched_buildResult j)
qed

lemma applyLineRange_empty_first:
  assumes "case e of Line n \<Rightarrow> 1 \<le> n | Infinity \<Rightarrow> True"
  shows "patched_of (applyLineRange lib [] 1 e content) = Some content"
proof -
  have "replaced_lines [] 1 e content = content_lines content"
    using assms by (cases e) (auto simp: replaced_lines_def effective_end_def)
  moreover have "case e of Line n \<Rightarrow> 0 \<le> n | Infinity \<Rightarrow> True"
    using assms by (cases e) auto
  ultimately show ?thesis
    by (simp add: applyLineRange_replaced patched_of_def patched_buildResult join_content_lines)
qed

lemma applyLineRange_empty_second:
  assumes "case e of Line n \<Rightarrow> 1 \<le> n | Infinity \<Rightarrow> True"
  shows "patched_of (applyLineRange lib [] 2 e content) =
           Some (if content = [] then [] else nl # content)"
proof -
  have "replaced_lines [] 2 e content = [] # content_lines content"
    using assms by (cases e) (auto simp: replaced_lines_def effective_end_def)
  moreover have "case e of Line n \<Rightarrow> 0 \<le> n | Infinity \<Rightarrow> True"
    using assms by (cases e) auto
  ultimately show ?thesis
    by (simp add: applyLineRange_replaced patched_of_def patched_buildResult content_lines_def
        join_nl_Cons)
qed

text \<open>
  C10. The empty document is one empty line: \<open>totalLines\<close> is the number of line breaks
  plus one. On the empty document a line-range operation throws (a \<open>ValidationError\<close>)
  exactly when \<open>start < 1\<close> or \<open>start \<ge> 3\<close>; with an end of at least 1, \<open>start = 1\<close>
  replaces the empty line by the content and \<open>start = 2\<close> inserts the content after it.
  A document that ends with a line break has a last line that is empty, and the range
  \<open>totalLines:totalLines\<close> addresses it: non-empty content takes its place, empty content
  deletes it together with the line break.
\<close>

theorem empty_document_is_one_line:
  "split_nl [] = [[]]
   \<and> length (split_nl original) = Suc (count_list original nl)
   \<and> isl (applyPatchOperation lib [] (PatchLineRange start e content)) = (start < 1 \<or> 2 < start)
   \<and> (\<forall>err. applyPatchOperation lib [] (PatchLineRange start e content) = Inl err \<longrightarrow>
          (\<exists>v. err = ThrownCli v \<and> name v = ''ValidationError''))
   \<and> ((case e of Line n \<Rightarrow> 1 \<le> n | Infinity \<Rightarrow> True) \<longrightarrow>
        patched_of (applyPatchOperation lib [] (PatchLineRange 1 e content)) = Some content \<and>
        patched_of (applyPatchOperation lib [] (PatchLineRange 2 e content)) =
          Some (if content = [] then [] else nl # content))
   \<and> (endsWith_nl original \<longrightarrow>
        last (split_nl original) = [] \<and>
        patched_of (applyPatchOperation lib original
           (PatchLineRange (int (length (split_nl original)))
              (Line (int (length (split_nl original)))) content)) =
          Some (if content = [] then butlast original else original @ content))"
proof -
  have "isl (applyPatchOperation lib [] (PatchLineRange start e content)) = (start < 1 \<or> 2 < start)"
    using applyLineRange_isl [of lib "[]" start e content] by simp
  moreover have "endsWith_nl original \<Longrightarrow> last (split_nl original) = []"
    by (simp add: split_nl_trailing)
  ultimately show ?thesis
    using applyLineRange_error_name applyLineRange_empty_first applyLineRange_empty_second
      applyLineRange_last_line length_split_nl
    by simp
qed

theorem empty_document_is_one_line_witness:
  "\<forall>lib.
     patched_of (applyPatchOperation lib [] (PatchLineRange 1 (Line 1) ''x'')) = Some ''x''
   \<and> patched_of (applyPatchOperation lib [] (PatchLineRange 2 Infinity ''x'')) = Some ''\<newline>x''
   \<and> isl (applyPatchOperation lib [] (PatchLineRange 3 (Line 3) ''x''))
   \<and> endsWith_nl ''a\<newline>''
   \<and> length (split_nl ''a\<newline>'') = 2
   \<and> patched_of (applyPatchOperation lib ''a\<newline>'' (PatchLineRange 2 (Line 2) ''x'')) = Some ''a\<newline>x''"
proof
  fix lib
  have a: "patched_of (applyPatchOperation lib [] (PatchLineRange 1 (Line 1) ''x'')) = Some ''x''"
    using empty_document_is_one_line [of "[]" lib 1 "Line 1" "''x''"] by simp
  have "patched_of (applyPatchOperation lib [] (PatchLineRange 2 Infinity ''x'')) =
      Some (if ''x'' = [] then [] else nl # ''x'')"
    using empty_document_is_one_line [of "[]" lib 1 "Infinity" "''x''"] by simp
  then have b: "patched_of (applyPatchOperation lib [] (PatchLineRange 2 Infinity ''x'')) = Some ''\<newline>x''"
    by (simp add: nl_def)
  have c: "isl (applyPatchOperation lib [] (PatchLineRange 3 (Line 3) ''x''))"
    using empty_document_is_one_line [of "[]" lib 3 "Line 3" "''x''"] by simp
  have d: "endsWith_nl ''a\<newline>''" by (simp add: endsWith_nl_def nl_def)
  have l: "split_nl ''a\<newline>'' = [''a'', []]" by code_simp
  have e: "length (split_nl ''a\<newline>'') = 2" unfolding l by simp
  have "patched_of (applyPatchOperation lib ''a\<newline>''
           (PatchLineRange (int (length (split_nl ''a\<newline>'')))
              (Line (int (length (split_nl ''a\<newline>'')))) ''x'')) =
          Some (if ''x'' = [] then butlast ''a\<newline>'' else ''a\<newline>'' @ ''x'')"
    using empty_document_is_one_line [of "''a\<newline>''" lib 1 "Line 1" "''x''"] d by blast
  then have f: "patched_of (applyPatchOperation lib ''a\<newline>'' (PatchLineRange 2 (Line 2) ''x'')) = Some ''a\<newline>x''"
    unfolding e by simp
  show "patched_of (applyPatchOperation lib [] (PatchLineRange 1 (Line 1) ''x'')) = Some ''x''
   \<and> patched_of (applyPatchOperation lib [] (PatchLineRange 2 Infinity ''x'')) = Some ''\<newline>x''
   \<and> isl (applyPatchOperation lib [] (PatchLineRange 3 (Line 3) ''x''))
   \<and> endsWith_nl ''a\<newline>''
   \<and> length (split_nl ''a\<newline>'') = 2
   \<and> patched_of (applyPatchOperation lib ''a\<newline>'' (PatchLineRange 2 (Line 2) ''x'')) = Some ''a\<newline>x''"
    using a b c d e f by blast
qed

section \<open>Converting thrown values\<close>

text \<open>
  C8 (amended). A failure with status 429, whose code is neither \<open>unauthorized\<close> nor
  \<open>object_not_found\<close> (both are classified first), becomes a \<open>RateLimitError\<close> whose
  retry-after duration is the fixed 1000 ms; the conversion never reads a retry-after
  hint, so the result is the same with any hint and with none.
\<close>

theorem rate_limit_fixed_delay:
  "(status err = Some 429 \<and> err_code err \<noteq> Some ''unauthorized'' \<and>
    err_code err \<noteq> Some ''object_not_found'' \<longrightarrow>
      toCliError (ThrownError err) = new_RateLimitError 1000 \<and>
      name (toCliError (ThrownError err)) = ''RateLimitError'' \<and>
      retryAfterMs (toCliError (ThrownError err)) = Some 1000)
   \<and> toCliError (ThrownError (err\<lparr>retry_after_hint := h\<rparr>)) = toCliError (ThrownError err)"
  by (simp add: new_RateLimitError_def)

theorem rate_limit_fixed_delay_witness:
  "status throttled_example = Some 429 \<and>
   retry_after_hint throttled_example = Some 5000 \<and>
   name (toCliError (ThrownError throttled_example)) = ''RateLimitError'' \<and>
   retryAfterMs (toCliError (ThrownError throttled_example)) = Some 1000"
  using rate_limit_fixed_delay [of throttled_example]
  by (simp add: throttled_example_def)

text \<open>
  A 429 failure with a hint of 5000 ms is converted to a \<open>RateLimitError\<close> of 1000 ms.
\<close>

theorem rate_limit_hint_counterexample:
  "status throttled_example = Some 429 \<and>
   retry_after_hint throttled_example = Some 5000 \<and>
   retryAfterMs (toCliError (ThrownError throttled_example)) = Some 1000 \<and>
   retryAfterMs (toCliError (ThrownError throttled_example)) \<noteq> retry_after_hint throttled_example"
  by (simp add: throttled_example_def new_RateLimitError_def)

section \<open>The change count\<close>

lemma linesChanged_counts:
  "linesChanged (buildResult lib original new_text) =
     length (filter (\<lambda>l. startsWith l ''+'' \<and> \<not> startsWith l ''+++'')
       (split_nl (diff (buildResult lib original new_text)))) +
     length (filter (\<lambda>l. startsWith l ''-'' \<and> \<not> startsWith l ''---'')
       (split_nl (diff (buildResult lib original new_text))))"
  by (simp add: buildResult_def Let_def fold_count_line)

text \<open>
  C6. Deleting the line \<open>---\<close> (range 2:2, empty content) from the lines \<open>a\<close>, \<open>---\<close>,
  \<open>b\<close>: the diff has one removed line, \<open>----\<close>, and \<open>buildResult\<close> reports
  \<open>linesChanged = 0\<close>, because the loop skips every line that starts with \<open>---\<close>, not the
  header line alone.
\<close>

theorem linesChanged_misses_rule_line:
  "patched_of (applyPatchOperation rule_example_library ''a\<newline>---\<newline>b\<newline>''
       (PatchLineRange 2 (Line 2) [])) = Some ''a\<newline>b\<newline>''
   \<and> diff (buildResult rule_example_library ''a\<newline>---\<newline>b\<newline>'' ''a\<newline>b\<newline>'') = rule_removed_diff
   \<and> linesChanged (buildResult rule_example_library ''a\<newline>---\<newline>b\<newline>'' ''a\<newline>b\<newline>'') = 0
   \<and> diff_changed_lines rule_removed_diff = 1"
  by code_simp

section \<open>Numbered lines: adding and stripping\<close>

lemma cc_digit_char: "d < 10 \<Longrightarrow> cc (digit_char d) = 48 + d"
  by (simp add: cc_def digit_char_def)

lemma is_digit_digit_char: "d < 10 \<Longrightarrow> is_digit (digit_char d)"
  by (simp add: is_digit_def cc_digit_char)

lemma String_nat_nonempty: "String_nat n \<noteq> []"
  by (subst String_nat.simps) simp

lemma String_nat_digits: "c \<in> set (String_nat n) \<Longrightarrow> is_digit c"
proof (induction n arbitrary: c rule: String_nat.induct)
  case (1 n)
  show ?case
  proof (cases "n < 10")
    case True
    with "1.prems" show ?thesis
      by (subst (asm) String_nat.simps) (simp add: is_digit_digit_char)
  next
    case False
    with "1.prems" have "c \<in> set (String_nat (n div 10)) \<or> c = digit_char (n mod 10)"
      by (subst (asm) String_nat.simps) auto
    with False "1.IH" show ?thesis
      by (auto simp: is_digit_digit_char)
  qed
qed

lemma length_String_nat_mono: "m \<le> n \<Longrightarrow> length (String_nat m) \<le> length (String_nat n)"
proof (induction n arbitrary: m rule: String_nat.induct)
  case (1 n)
  show ?case
  proof (cases "n < 10")
    case True
    with "1.prems" have "m < 10" by simp
    with True show ?thesis by (simp add: String_nat.simps [of m] String_nat.simps [of n])
  next
    case False
    note big = this
    show ?thesis
    proof (cases "m < 10")
      case True
      with big show ?thesis by (simp add: String_nat.simps [of m] String_nat.simps [of n])
    next
      case False
      from "1.prems" have "m div 10 \<le> n div 10" by (rule div_le_mono)
      with "1.IH" big have "length (String_nat (m div 10)) \<le> length (String_nat (n div 10))"
        by simp
      with False big show ?thesis
        by (simp add: String_nat.simps [of m] String_nat.simps [of n])
    qed
  qed
qed

lemma digit_not_space: "is_digit c \<Longrightarrow> \<not> is_space c"
  by (auto simp: is_digit_def is_space_def)

lemma digit_not_nl: "is_digit c \<Longrightarrow> c \<noteq> nl"
  by (auto simp: is_digit_def nl_def cc_def)

lemma space_char:
  "is_space (CHR '' '')" "\<not> is_digit (CHR '':'')" "nl \<noteq> CHR '' ''" "nl \<noteq> CHR '':''"
  by (simp_all add: is_space_def is_digit_def cc_def nl_def)

lemma strip_number_prefixed:
  assumes ds: "ds \<noteq> []" and dig: "\<And>c. c \<in> set ds \<Longrightarrow> is_digit c"
  shows "strip_number (replicate k (CHR '' '') @ ds @ '': '' @ line) = line"
proof -
  obtain d ds' where d: "ds = d # ds'" using ds by (cases ds) auto
  have nsp: "\<not> is_space d" using dig d by (simp add: digit_not_space)
  have r1: "dropWhile is_space (replicate k (CHR '' '') @ ds @ '': '' @ line) = ds @ '': '' @ line"
    using nsp d by (simp add: dropWhile_append space_char)
  have alld: "\<forall>c\<in>set ds. is_digit c" using dig by blast
  have tw: "takeWhile is_digit (ds @ CHR '':'' # CHR '' '' # line) = ds"
    using alld by (simp add: takeWhile_tail space_char)
  have dw: "dropWhile is_digit (ds @ CHR '':'' # CHR '' '' # line) = CHR '':'' # CHR '' '' # line"
    using alld by (simp add: dropWhile_append3 space_char)
  show ?thesis
    unfolding strip_number_def r1 by (simp add: Let_def tw dw ds space_char)
qed

lemma strip_number_line: "strip_number (number_line w (i, line)) = line"
  unfolding number_line_def padStart_def
  using strip_number_prefixed [OF String_nat_nonempty String_nat_digits] by simp

lemma number_line_no_nl: "nl \<notin> set line \<Longrightarrow> nl \<notin> set (number_line w (i, line))"
  unfolding number_line_def padStart_def
  using space_char(3,4) by (auto dest: String_nat_digits digit_not_nl)

lemma map_strip_number: "map strip_number (map (number_line w) ils) = map snd ils"
  by (induction ils) (auto simp: strip_number_line)

lemma numbered_no_nl:
  assumes "x \<in> set (map (number_line w) (enumerate k (split_nl text)))"
  shows "nl \<notin> set x"
proof -
  from assms obtain i l where "x = number_line w (i, l)" "(i, l) \<in> set (enumerate k (split_nl text))"
    by auto
  moreover then have "l \<in> set (split_nl text)" by (auto simp: in_set_enumerate_eq)
  ultimately show ?thesis by (simp add: number_line_no_nl lines_no_nl)
qed

lemma split_addLineNumbers:
  "split_nl (addLineNumbers text) =
     map (number_line (length (String_nat (length (split_nl text))))) (enumerate 0 (split_nl text))"
proof -
  have "enumerate 0 (split_nl text) \<noteq> []"
    by (cases "split_nl text") auto
  then show ?thesis
    unfolding addLineNumbers_def Let_def
    by (intro split_join_nl) (simp_all add: numbered_no_nl)
qed

lemma numbered_line_shape:
  assumes "i < length (split_nl text)"
  shows "split_nl (addLineNumbers text) ! i =
           replicate (length (String_nat (length (split_nl text))) - length (String_nat (i + 1)))
             (CHR '' '') @ String_nat (i + 1) @ '': '' @ split_nl text ! i
         \<and> length (String_nat (i + 1)) \<le> length (String_nat (length (split_nl text)))"
proof -
  have "i + 1 \<le> length (split_nl text)" using assms by simp
  then have "length (String_nat (i + 1)) \<le> length (String_nat (length (split_nl text)))"
    by (rule length_String_nat_mono)
  then show ?thesis
    using assms by (simp add: split_addLineNumbers nth_enumerate_eq number_line_def padStart_def)
qed

text \<open>
  C7. Stripping the line numbers that \<open>addLineNumbers\<close> added gives the text back, for
  every text (also one whose lines themselves begin with digits and a colon, since only the
  first prefix of a line is removed). The numbered text has the same number of lines, and
  line \<open>i\<close> (counted from 0) is the decimal \<open>i + 1\<close>, padded on the left with spaces to the
  width of the largest index, then a colon and a space, then the original line.
\<close>

theorem strip_add_line_numbers:
  "stripLineNumbers (addLineNumbers text) = text
   \<and> length (split_nl (addLineNumbers text)) = length (split_nl text)
   \<and> (\<forall>i < length (split_nl text).
        split_nl (addLineNumbers text) ! i =
          replicate (length (String_nat (length (split_nl text))) - length (String_nat (i + 1)))
            (CHR '' '') @ String_nat (i + 1) @ '': '' @ split_nl text ! i
        \<and> length (String_nat (i + 1)) \<le> length (String_nat (length (split_nl text))))"
proof -
  have "stripLineNumbers (addLineNumbers text) = text"
    unfolding stripLineNumbers_def split_addLineNumbers map_strip_number
    by (simp add: enumerate_eq_zip)
  moreover have "length (split_nl (addLineNumbers text)) = length (split_nl text)"
    by (simp add: split_addLineNumbers)
  ultimately show ?thesis using numbered_line_shape by blast
qed

theorem strip_add_line_numbers_witness:
  "addLineNumbers ''a\<newline>2: b\<newline>c\<newline>d\<newline>e\<newline>f\<newline>g\<newline>h\<newline>i\<newline>j'' =
     '' 1: a\<newline> 2: 2: b\<newline> 3: c\<newline> 4: d\<newline> 5: e\<newline> 6: f\<newline> 7: g\<newline> 8: h\<newline> 9: i\<newline>10: j''
   \<and> stripLineNumbers '' 1: a\<newline> 2: 2: b\<newline> 3: c\<newline> 4: d\<newline> 5: e\<newline> 6: f\<newline> 7: g\<newline> 8: h\<newline> 9: i\<newline>10: j'' =
     ''a\<newline>2: b\<newline>c\<newline>d\<newline>e\<newline>f\<newline>g\<newline>h\<newline>i\<newline>j''
   \<and> (1::nat) < length (split_nl ''a\<newline>2: b\<newline>c\<newline>d\<newline>e\<newline>f\<newline>g\<newline>h\<newline>i\<newline>j'')
   \<and> split_nl (addLineNumbers ''a\<newline>2: b\<newline>c\<newline>d\<newline>e\<newline>f\<newline>g\<newline>h\<newline>i\<newline>j'') ! 1 = '' 2: 2: b''"
proof -
  let ?t = "''a\<newline>2: b\<newline>c\<newline>d\<newline>e\<newline>f\<newline>g\<newline>h\<newline>i\<newline>j''"
  have a: "addLineNumbers ?t =
     '' 1: a\<newline> 2: 2: b\<newline> 3: c\<newline> 4: d\<newline> 5: e\<newline> 6: f\<newline> 7: g\<newline> 8: h\<newline> 9: i\<newline>10: j''"
    by code_simp
  have l: "(1::nat) < length (split_nl ?t)" by code_simp
  have v: "replicate (length (String_nat (length (split_nl ?t))) - length (String_nat (1 + 1)))
            (CHR '' '') @ String_nat (1 + 1) @ '': '' @ split_nl ?t ! 1 = '' 2: 2: b''"
    by code_simp
  have s: "stripLineNumbers (addLineNumbers ?t) = ?t"
    using strip_add_line_numbers [of ?t] by blast
  have "split_nl (addLineNumbers ?t) ! 1 =
          replicate (length (String_nat (length (split_nl ?t))) - length (String_nat (1 + 1)))
            (CHR '' '') @ String_nat (1 + 1) @ '': '' @ split_nl ?t ! 1"
    using strip_add_line_numbers [of ?t] l by blast
  then have n: "split_nl (addLineNumbers ?t) ! 1 = '' 2: 2: b''"
    unfolding v .
  show ?thesis using a s [unfolded a] l n by blast
qed

section \<open>Replacement, stage by stage\<close>

lemma hit_iff: "hit m p s \<longleftrightarrow> (\<exists>n. m p s = Some (Suc n))"
  by (auto simp: hit_def split: option.splits nat.splits)

lemma replace_from_hit:
  "m p (c # cs) = Some (Suc n) \<Longrightarrow>
   replace_from m r p 0 (c # cs) = r @ replace_from m r (Some c) n cs"
  by simp

lemma replace_from_copy:
  "\<not> hit m p (c # cs) \<Longrightarrow>
   replace_from m r p 0 (c # cs) = c # replace_from m r (Some c) 0 cs"
  by (auto simp: hit_def split: option.splits nat.splits)

lemma replace_from_skip:
  "k \<le> length s \<Longrightarrow>
   replace_from m r p k s = replace_from m r (if k = 0 then p else Some (s ! (k - 1))) 0 (drop k s)"
proof (induction s arbitrary: p k)
  case Nil
  then show ?case by simp
next
  case (Cons c cs)
  show ?case
  proof (cases k)
    case 0
    then show ?thesis by simp
  next
    case (Suc j)
    with Cons.prems have "j \<le> length cs" by simp
    from Cons.IH [OF this, of "Some c"] Suc show ?thesis
      by (cases j) simp_all
  qed
qed

lemma occurs_append:
  "occurs Q p (r @ x) = (occurs_within Q p r x \<or> occurs Q (last_or p r) x)"
  by (induction r arbitrary: p) (simp_all add: last_or_def)

lemma occurs_drop:
  "\<not> occurs Q p s \<Longrightarrow> k < length s \<Longrightarrow> \<not> occurs Q (Some (s ! k)) (drop (Suc k) s)"
proof (induction s arbitrary: p k)
  case Nil
  then show ?case by simp
next
  case (Cons c cs)
  show ?case
  proof (cases k)
    case 0
    with Cons.prems show ?thesis by simp
  next
    case (Suc j)
    with Cons.prems Cons.IH [of "Some c" j] show ?thesis by simp
  qed
qed

text \<open>
  One replacement stage, with matcher \<open>m\<close> and replacement text \<open>r\<close>, leaves no position
  where \<open>Q\<close> holds, provided that \<open>Q\<close> held in the input only where \<open>m\<close> hits, that \<open>Q\<close>
  cannot begin inside \<open>r\<close> nor at the character after a match, and that copying a
  character does not create a \<open>Q\<close> position.
\<close>

lemma replace_clears:
  assumes bound: "\<And>p s n. m p s = Some (Suc n) \<Longrightarrow>
            Suc n \<le> length s \<and> (case drop (Suc n) s of [] \<Rightarrow> True | d # ds \<Rightarrow> D d)"
    and D_m: "\<And>d q ds. D d \<Longrightarrow> \<not> hit m q (d # ds)"
    and D_Q: "\<And>d q y. D d \<Longrightarrow> \<not> Q q (d # y)"
    and inside: "\<And>p x. \<not> occurs_within Q p r x"
    and copy: "\<And>p c cs. \<not> hit m p (c # cs) \<Longrightarrow> \<not> Q p (c # cs) \<Longrightarrow>
            \<not> Q p (c # replace_from m r (Some c) 0 cs)"
  shows "\<not> occurs (\<lambda>p s. Q p s \<and> \<not> hit m p s) p s \<Longrightarrow> \<not> occurs Q p (replace_from m r p 0 s)"
proof (induction "length s" arbitrary: p s rule: less_induct)
  case less
  show ?case
  proof (cases s)
    case Nil
    then show ?thesis by simp
  next
    case (Cons c cs)
    show ?thesis
    proof (cases "hit m p s")
      case False
      then have out: "replace_from m r p 0 s = c # replace_from m r (Some c) 0 cs"
        unfolding Cons by (rule replace_from_copy)
      from less.prems Cons False have nq: "\<not> Q p (c # cs)"
        and rest: "\<not> occurs (\<lambda>p s. Q p s \<and> \<not> hit m p s) (Some c) cs"
        by simp_all
      from less.hyps [of cs "Some c"] Cons rest
      have "\<not> occurs Q (Some c) (replace_from m r (Some c) 0 cs)" by simp
      moreover from copy False nq Cons
      have "\<not> Q p (c # replace_from m r (Some c) 0 cs)" by simp
      ultimately show ?thesis unfolding out by simp
    next
      case True
      then obtain n where n: "m p s = Some (Suc n)" by (auto simp: hit_iff)
      from bound [OF n] have len: "Suc n \<le> length s"
        and nxt: "case drop (Suc n) s of [] \<Rightarrow> True | d # ds \<Rightarrow> D d" by simp_all
      from len Cons have ncs: "n \<le> length cs" by simp
      let ?l = "Some (s ! n)"
      let ?x = "replace_from m r ?l 0 (drop (Suc n) s)"
      have "replace_from m r (Some c) n cs =
            replace_from m r (if n = 0 then Some c else Some (cs ! (n - 1))) 0 (drop n cs)"
        using ncs by (rule replace_from_skip)
      also have "(if n = 0 then Some c else Some (cs ! (n - 1))) = ?l"
        using Cons by (cases n) simp_all
      also have "drop n cs = drop (Suc n) s" using Cons by simp
      finally have skip: "replace_from m r (Some c) n cs = ?x" .
      from n have n': "m p (c # cs) = Some (Suc n)" unfolding Cons .
      have out: "replace_from m r p 0 s = r @ ?x"
        using replace_from_hit [of m p c cs n r] n' by (simp only: skip Cons)
      have "\<not> occurs (\<lambda>p s. Q p s \<and> \<not> hit m p s) ?l (drop (Suc n) s)"
        using less.prems len by (intro occurs_drop) simp_all
      with less.hyps [of "drop (Suc n) s" ?l] len Cons
      have ih: "\<not> occurs Q ?l ?x" by simp
      have "\<not> occurs Q (last_or p r) ?x"
      proof (cases "drop (Suc n) s")
        case Nil
        then show ?thesis by simp
      next
        case dd: (Cons d ds)
        with nxt have d: "D d" by simp
        have "\<not> hit m ?l (d # ds)" using d by (rule D_m)
        then have x: "?x = d # replace_from m r (Some d) 0 ds"
          unfolding dd by (rule replace_from_copy)
        from ih D_Q [OF d] show ?thesis unfolding x by simp
      qed
      with inside show ?thesis unfolding out by (simp add: occurs_append)
    qed
  qed
qed

section \<open>What the three expressions match\<close>

lemma backtrack_Some_iff:
  "backtrack ok lo j = Some k \<longleftrightarrow>
     lo \<le> k \<and> k \<le> j \<and> ok k \<and> (\<forall>i. k < i \<and> i \<le> j \<longrightarrow> \<not> ok i)"
proof (induction j)
  case 0
  show ?case by auto
next
  case (Suc j)
  show ?case
  proof (cases "Suc j < lo")
    case True
    then show ?thesis by auto
  next
    case geq: False
    show ?thesis
    proof (cases "ok (Suc j)")
      case True
      with geq have "backtrack ok lo (Suc j) = Some (Suc j)" by simp
      moreover have "(lo \<le> k \<and> k \<le> Suc j \<and> ok k \<and> (\<forall>i. k < i \<and> i \<le> Suc j \<longrightarrow> \<not> ok i)) \<longleftrightarrow> k = Suc j"
        using True geq by (metis le_neq_implies_less linorder_not_less order_refl)
      ultimately show ?thesis by auto
    next
      case False
      with geq have "backtrack ok lo (Suc j) = backtrack ok lo j" by simp
      moreover have "(lo \<le> k \<and> k \<le> Suc j \<and> ok k \<and> (\<forall>i. k < i \<and> i \<le> Suc j \<longrightarrow> \<not> ok i)) \<longleftrightarrow>
          (lo \<le> k \<and> k \<le> j \<and> ok k \<and> (\<forall>i. k < i \<and> i \<le> j \<longrightarrow> \<not> ok i))"
        using False by (metis le_Suc_eq)
      ultimately show ?thesis using Suc.IH by simp
    qed
  qed
qed

lemma backtrack_None_iff:
  "backtrack ok lo j = None \<longleftrightarrow> (\<forall>i. lo \<le> i \<and> i \<le> j \<longrightarrow> \<not> ok i)"
proof (induction j)
  case 0
  show ?case by auto
next
  case (Suc j)
  show ?case
  proof (cases "Suc j < lo")
    case True
    then show ?thesis by auto
  next
    case geq: False
    show ?thesis
    proof (cases "ok (Suc j)")
      case True
      with geq show ?thesis by (auto simp: not_less intro: exI [of _ "Suc j"])
    next
      case False
      with geq Suc.IH show ?thesis by (auto simp: le_Suc_eq)
    qed
  qed
qed

lemma word_is_token: "is_word c \<Longrightarrow> is_token c"
  by (simp add: is_token_def)

lemma hex_is_word: "is_hex c \<Longrightarrow> is_word c"
  by (auto simp: is_hex_def is_word_def is_upper_def is_lower_def)

lemma token_not_space: "is_token c \<Longrightarrow> \<not> is_space c"
  by (auto simp: is_token_def is_word_def is_digit_def is_upper_def is_lower_def is_space_def)

lemma nth_opt_Nil [simp]: "nth_opt [] k = None"
  by (simp add: nth_opt_def)

lemma nth_opt_0 [simp]: "nth_opt (c # cs) 0 = Some c"
  by (simp add: nth_opt_def)

lemma nth_opt_append_length [simp]: "nth_opt (a @ rest) (length a) = nth_opt rest 0"
  by (cases rest) (simp_all add: nth_opt_def nth_append)

lemma nth_opt_append_left: "k < length a \<Longrightarrow> nth_opt (a @ rest) k = Some (a ! k)"
  by (simp add: nth_opt_def nth_append)

lemma word_opt_simps [simp]: "word_opt None = False" "word_opt (Some c) = is_word c"
  by (simp_all add: word_opt_def)

text \<open>After a run of token characters comes the end or a character that is no word character.\<close>

lemma after_run_not_word:
  "\<not> word_opt (nth_opt t (length (takeWhile P t)))" if "\<And>c. is_word c \<Longrightarrow> P c"
proof (cases "length (takeWhile P t) < length t")
  case True
  then have "\<not> P (t ! length (takeWhile P t))" by (rule nth_length_takeWhile)
  with True that show ?thesis by (auto simp: nth_opt_def)
next
  case False
  then show ?thesis by (simp add: nth_opt_def)
qed

lemma next_boundary:
  "word_opt (nth_opt t k) \<Longrightarrow> k < n \<Longrightarrow> \<not> word_opt (nth_opt t n) \<Longrightarrow>
   \<exists>i. k < i \<and> i \<le> n \<and> wordb (nth_opt t (i - 1)) (nth_opt t i)"
proof (induction n)
  case 0
  then show ?case by simp
next
  case (Suc n)
  show ?case
  proof (cases "word_opt (nth_opt t n)")
    case True
    with Suc.prems have "wordb (nth_opt t (Suc n - 1)) (nth_opt t (Suc n))"
      by (simp add: wordb_def)
    with Suc.prems show ?thesis by blast
  next
    case False
    with Suc.prems have "k < n" by (cases "k = n") auto
    with Suc.IH Suc.prems False obtain i where "k < i" "i \<le> n" "wordb (nth_opt t (i - 1)) (nth_opt t i)"
      by blast
    then show ?thesis by (intro exI [of _ i]) simp
  qed
qed

lemma takeWhile_lit:
  "list_all P lit \<Longrightarrow> take (length lit) s = lit \<Longrightarrow>
   takeWhile P s = lit @ takeWhile P (drop (length lit) s)"
proof -
  assume a: "list_all P lit" and t: "take (length lit) s = lit"
  have "s = lit @ drop (length lit) s"
    using t by (metis append_take_drop_id)
  then have "takeWhile P s = takeWhile P (lit @ drop (length lit) s)" by simp
  also have "\<dots> = lit @ takeWhile P (drop (length lit) s)"
    using a by (simp add: list_all_iff)
  finally show ?thesis .
qed

lemma drop_cases_nth_opt:
  "(case drop k t of [] \<Rightarrow> True | d # ds \<Rightarrow> \<not> P d) \<longleftrightarrow>
   (case nth_opt t k of None \<Rightarrow> True | Some d \<Rightarrow> \<not> P d)"
proof (cases "k < length t")
  case True
  then have "drop k t = t ! k # drop (Suc k) t" by (simp add: Cons_nth_drop_Suc)
  with True show ?thesis by (simp add: nth_opt_def)
next
  case False
  then show ?thesis by (simp add: nth_opt_def)
qed

lemma match_token_parts:
  assumes "match_token lit p s = Some L"
  obtains k where "wordb p (nth_opt s 0)" "take (length lit) s = lit" "L = length lit + k"
    "backtrack (\<lambda>k. wordb (nth_opt (drop (length lit) s) (k - 1)) (nth_opt (drop (length lit) s) k)) 1
       (length (takeWhile is_token (drop (length lit) s))) = Some k"
  using assms by (auto simp: match_token_def Let_def split: if_splits)

lemma token_lit_start:
  assumes "token_lit lit" "take (length lit) s = lit"
  shows "wordb p (nth_opt s 0) \<longleftrightarrow> \<not> word_opt p"
proof -
  from assms obtain c cs where "lit = c # cs" "is_word c"
    by (cases lit) (auto simp: token_lit_def)
  with assms(2) have "nth_opt s 0 = Some c"
    by (cases s) (auto simp: nth_opt_def)
  with \<open>is_word c\<close> show ?thesis by (auto simp: wordb_def)
qed

lemma run_word_index:
  assumes "is_word (t ! j)" "j < length (takeWhile is_token t)"
  shows "\<exists>a b rest. t = a @ b # rest \<and> list_all is_token a \<and> is_word b"
proof -
  let ?n = "length (takeWhile is_token t)"
  have jn: "j < length t" using assms(2) length_takeWhile_le [of is_token t] by simp
  have t: "t = take j t @ t ! j # drop (Suc j) t"
    using jn by (rule id_take_nth_drop)
  have "take j t = take j (takeWhile is_token t @ dropWhile is_token t)" by simp
  also have "\<dots> = take j (takeWhile is_token t)"
    using assms(2) by (simp del: takeWhile_dropWhile_id)
  finally have "take j t = take j (takeWhile is_token t)" .
  then have "set (take j t) \<subseteq> set (takeWhile is_token t)"
    by (metis set_take_subset)
  then have "list_all is_token (take j t)"
    by (auto simp: list_all_iff dest: set_takeWhileD)
  with t assms(1) show ?thesis by blast
qed

lemma match_token_hit_iff:
  assumes lit: "token_lit lit"
  shows "hit (match_token lit) p s \<longleftrightarrow>
     \<not> word_opt p \<and> (\<exists>a b rest. s = lit @ a @ b # rest \<and> list_all is_token a \<and> is_word b)"
proof
  assume "hit (match_token lit) p s"
  then obtain m where m: "match_token lit p s = Some (Suc m)" by (auto simp: hit_iff)
  let ?t = "drop (length lit) s"
  let ?n = "length (takeWhile is_token ?t)"
  from m obtain k where st: "wordb p (nth_opt s 0)" and tk: "take (length lit) s = lit"
    and bt: "backtrack (\<lambda>k. wordb (nth_opt ?t (k - 1)) (nth_opt ?t k)) 1 ?n = Some k"
    by (rule match_token_parts)
  from bt have k: "1 \<le> k" "k \<le> ?n" and ok: "wordb (nth_opt ?t (k - 1)) (nth_opt ?t k)"
    by (simp_all add: backtrack_Some_iff)
  have notw: "\<not> word_opt (nth_opt ?t ?n)"
    by (rule after_run_not_word) (rule word_is_token)
  have "\<exists>j < ?n. is_word (?t ! j)"
  proof (cases "word_opt (nth_opt ?t (k - 1))")
    case True
    with k show ?thesis
      by (intro exI [of _ "k - 1"]) (auto simp: nth_opt_def split: if_splits)
  next
    case False
    with ok have w: "word_opt (nth_opt ?t k)" by (simp add: wordb_def)
    with notw k have "k < ?n" by (cases "k = ?n") auto
    with w show ?thesis
      by (intro exI [of _ k]) (auto simp: nth_opt_def split: if_splits)
  qed
  then obtain a b rest where "?t = a @ b # rest" "list_all is_token a" "is_word b"
    using run_word_index by blast
  moreover have "s = lit @ ?t" using tk by (metis append_take_drop_id)
  ultimately have "\<exists>a b rest. s = lit @ a @ b # rest \<and> list_all is_token a \<and> is_word b"
    by metis
  with st token_lit_start [OF lit tk] show
    "\<not> word_opt p \<and> (\<exists>a b rest. s = lit @ a @ b # rest \<and> list_all is_token a \<and> is_word b)"
    by simp
next
  assume r: "\<not> word_opt p \<and> (\<exists>a b rest. s = lit @ a @ b # rest \<and> list_all is_token a \<and> is_word b)"
  then obtain a b rest where s: "s = lit @ a @ b # rest" and a: "list_all is_token a" and b: "is_word b"
    by blast
  let ?t = "a @ b # rest"
  let ?n = "length (takeWhile is_token ?t)"
  have tk: "take (length lit) s = lit" and dr: "drop (length lit) s = ?t" using s by simp_all
  have "takeWhile is_token ?t = a @ takeWhile is_token (b # rest)"
    using a by (simp add: list_all_iff)
  then have n: "length a < ?n" using b by (simp add: word_is_token)
  have w: "word_opt (nth_opt ?t (length a))" using b by simp
  have notw: "\<not> word_opt (nth_opt ?t ?n)"
    by (rule after_run_not_word) (rule word_is_token)
  from next_boundary [OF w n notw] obtain i where i: "length a < i" "i \<le> ?n"
    "wordb (nth_opt ?t (i - 1)) (nth_opt ?t i)" by blast
  then have "backtrack (\<lambda>k. wordb (nth_opt ?t (k - 1)) (nth_opt ?t k)) 1 ?n \<noteq> None"
    by (auto simp: backtrack_None_iff intro!: exI [of _ i])
  then obtain k where bt: "backtrack (\<lambda>k. wordb (nth_opt ?t (k - 1)) (nth_opt ?t k)) 1 ?n = Some k"
    by blast
  then have "1 \<le> k" by (simp add: backtrack_Some_iff)
  then obtain k' where k': "k = Suc k'" by (cases k) auto
  have "match_token lit p s = Some (length lit + k)"
    using r token_lit_start [OF lit tk, of p] tk bt
    by (simp add: match_token_def Let_def dr)
  then show "hit (match_token lit) p s"
    by (simp add: hit_iff k')
qed

lemma match_token_bound:
  assumes lit: "token_lit lit" and m: "match_token lit p s = Some (Suc m)"
  shows "Suc m \<le> length s \<and> (case drop (Suc m) s of [] \<Rightarrow> True | d # ds \<Rightarrow> \<not> is_word d)"
proof -
  let ?t = "drop (length lit) s"
  let ?n = "length (takeWhile is_token ?t)"
  from m obtain k where tk: "take (length lit) s = lit" and L: "Suc m = length lit + k"
    and bt: "backtrack (\<lambda>k. wordb (nth_opt ?t (k - 1)) (nth_opt ?t k)) 1 ?n = Some k"
    by (rule match_token_parts)
  from bt have k: "1 \<le> k" "k \<le> ?n"
    and mx: "\<And>i. k < i \<Longrightarrow> i \<le> ?n \<Longrightarrow> \<not> wordb (nth_opt ?t (i - 1)) (nth_opt ?t i)"
    by (simp_all add: backtrack_Some_iff)
  have notw: "\<not> word_opt (nth_opt ?t ?n)"
    by (rule after_run_not_word) (rule word_is_token)
  have len: "length s = length lit + length ?t"
    using tk by (metis append_take_drop_id length_append)
  have "?n \<le> length ?t" by (rule length_takeWhile_le)
  with k L len have b1: "Suc m \<le> length s" by linarith
  have nw: "\<not> word_opt (nth_opt ?t k)"
  proof
    assume w: "word_opt (nth_opt ?t k)"
    with notw k have "k < ?n" by (cases "k = ?n") auto
    from next_boundary [OF w this notw] mx show False by blast
  qed
  have "drop (Suc m) s = drop k ?t" by (metis L drop_drop add.commute)
  then have "(case drop (Suc m) s of [] \<Rightarrow> True | d # ds \<Rightarrow> \<not> is_word d) \<longleftrightarrow>
     (case nth_opt ?t k of None \<Rightarrow> True | Some d \<Rightarrow> \<not> is_word d)"
    by (simp only: drop_cases_nth_opt)
  also have "\<dots>" using nw by (auto split: option.splits)
  finally show ?thesis using b1 by simp
qed

lemma match_bearer_parts:
  assumes "match_bearer p s = Some L"
  shows "take 6 s = ''Bearer''"
    and "takeWhile is_space (drop 6 s) \<noteq> []"
    and "takeWhile is_token (dropWhile is_space (drop 6 s)) \<noteq> []"
    and "L = 6 + length (takeWhile is_space (drop 6 s)) +
           length (takeWhile is_token (dropWhile is_space (drop 6 s)))"
  using assms unfolding match_bearer_def Let_def dropWhile_eq_drop [symmetric]
  by (auto split: if_splits)

lemma match_bearer_hit_iff:
  "hit match_bearer p s \<longleftrightarrow>
     (\<exists>ws t rest. s = ''Bearer'' @ ws @ t # rest \<and> ws \<noteq> [] \<and> list_all is_space ws \<and> is_token t)"
proof
  assume "hit match_bearer p s"
  then obtain m where m: "match_bearer p s = Some (Suc m)" by (auto simp: hit_iff)
  let ?t = "drop 6 s"
  let ?ws = "takeWhile is_space ?t"
  let ?u = "dropWhile is_space ?t"
  from match_bearer_parts [OF m] have tk: "take 6 s = ''Bearer''" and ws: "?ws \<noteq> []"
    and tok: "takeWhile is_token ?u \<noteq> []" by simp_all
  from tok obtain t rest where u: "?u = t # rest" and t: "is_token t"
    by (cases ?u) (auto split: if_splits)
  have "s = ''Bearer'' @ ?t" using tk by (metis append_take_drop_id)
  also have "?t = ?ws @ ?u" by simp
  finally have "s = ''Bearer'' @ ?ws @ t # rest" unfolding u .
  moreover have "list_all is_space ?ws" by (auto simp: list_all_iff dest: set_takeWhileD)
  ultimately show "\<exists>ws t rest. s = ''Bearer'' @ ws @ t # rest \<and> ws \<noteq> [] \<and> list_all is_space ws \<and> is_token t"
    using ws t by blast
next
  assume "\<exists>ws t rest. s = ''Bearer'' @ ws @ t # rest \<and> ws \<noteq> [] \<and> list_all is_space ws \<and> is_token t"
  then obtain ws t rest where s: "s = ''Bearer'' @ ws @ t # rest" and ws: "ws \<noteq> []"
    and sp: "list_all is_space ws" and t: "is_token t" by blast
  have tk: "take 6 s = ''Bearer''" and dr: "drop 6 s = ws @ t # rest" using s by simp_all
  have tw: "takeWhile is_space (ws @ t # rest) = ws"
    using sp t by (simp add: list_all_iff token_not_space)
  have "match_bearer p s =
      Some (6 + length ws + length (takeWhile is_token (t # rest)))"
    using ws t by (simp add: match_bearer_def Let_def tk dr tw) (cases ws, simp_all)
  then show "hit match_bearer p s" by (simp add: hit_iff)
qed

lemma match_bearer_bound:
  assumes m: "match_bearer p s = Some (Suc m)"
  shows "Suc m \<le> length s \<and> (case drop (Suc m) s of [] \<Rightarrow> True | d # ds \<Rightarrow> \<not> is_token d)"
proof -
  let ?t = "drop 6 s"
  let ?ws = "takeWhile is_space ?t"
  let ?u = "dropWhile is_space ?t"
  let ?tk = "takeWhile is_token ?u"
  from match_bearer_parts [OF m] have tk: "take 6 s = ''Bearer''"
    and L: "Suc m = 6 + length ?ws + length ?tk" by simp_all
  have "s = ''Bearer'' @ ?t" using tk by (metis append_take_drop_id)
  also have "?t = ?ws @ ?u" by simp
  also have "?u = ?tk @ dropWhile is_token ?u" by simp
  finally have s': "s = (''Bearer'' @ ?ws @ ?tk) @ dropWhile is_token ?u" by simp
  define A where "A = ''Bearer'' @ ?ws @ ?tk"
  have len: "length A = Suc m" using L by (simp add: A_def)
  have s: "s = A @ dropWhile is_token ?u" using s' by (simp only: A_def)
  have "drop (length A) (A @ dropWhile is_token ?u) = dropWhile is_token ?u" by simp
  then have d: "drop (Suc m) s = dropWhile is_token ?u"
    using s len by metis
  have "length (A @ dropWhile is_token ?u) = Suc m + length (dropWhile is_token ?u)"
    using len by simp
  then have "length s = Suc m + length (dropWhile is_token ?u)" using s by metis
  then have "Suc m \<le> length s" by linarith
  moreover have "case dropWhile is_token ?u of [] \<Rightarrow> True | d # ds \<Rightarrow> \<not> is_token d"
  proof (cases "dropWhile is_token ?u")
    case Nil
    show ?thesis unfolding Nil by simp
  next
    case (Cons d ds)
    have "\<not> is_token (hd (d # ds))"
      by (metis Cons hd_dropWhile list.distinct(1))
    then show ?thesis unfolding Cons by simp
  qed
  ultimately show ?thesis unfolding d by simp
qed

lemma match_hex_parts:
  assumes "match_hex p s = Some k"
  shows "wordb p (nth_opt s 0)" and "40 \<le> k" and "k \<le> length (takeWhile is_hex s)"
    and "wordb (nth_opt s (k - 1)) (nth_opt s k)"
  using assms by (auto simp: match_hex_def backtrack_Some_iff split: if_splits)

lemma hex_run_nth:
  assumes "j < length (takeWhile is_hex s)"
  shows "nth_opt s j = Some (s ! j)" and "is_hex (s ! j)"
proof -
  have "j < length s" using assms length_takeWhile_le [of is_hex s] by simp
  then show "nth_opt s j = Some (s ! j)" by (simp add: nth_opt_def)
  have "takeWhile is_hex s ! j = s ! j" using assms by (rule takeWhile_nth)
  moreover have "is_hex (takeWhile is_hex s ! j)"
    using assms by (metis nth_mem set_takeWhileD)
  ultimately show "is_hex (s ! j)" by simp
qed

lemma match_hex_bound:
  assumes m: "match_hex p s = Some (Suc m)"
  shows "Suc m \<le> length s \<and> (case drop (Suc m) s of [] \<Rightarrow> True | d # ds \<Rightarrow> \<not> is_word d)"
proof -
  from match_hex_parts [OF m] have k: "Suc m \<le> length (takeWhile is_hex s)"
    and ok: "wordb (nth_opt s (Suc m - 1)) (nth_opt s (Suc m))" by simp_all
  have "m < length (takeWhile is_hex s)" using k by simp
  from hex_run_nth [OF this] have "word_opt (nth_opt s m)" by (simp add: hex_is_word)
  with ok have "\<not> word_opt (nth_opt s (Suc m))" by (simp add: wordb_def)
  then have "case nth_opt s (Suc m) of None \<Rightarrow> True | Some d \<Rightarrow> \<not> is_word d"
    by (auto split: option.splits)
  moreover have "Suc m \<le> length s" using k length_takeWhile_le [of is_hex s] by simp
  ultimately show ?thesis by (simp only: drop_cases_nth_opt)
qed

lemma match_hex_hit_iff:
  "hit match_hex p s \<longleftrightarrow>
     \<not> word_opt p \<and>
     (\<exists>h rest. s = h @ rest \<and> 40 \<le> length h \<and> list_all is_hex h \<and>
        (case rest of [] \<Rightarrow> True | d # ds \<Rightarrow> \<not> is_word d))"
proof
  assume "hit match_hex p s"
  then obtain m where m: "match_hex p s = Some (Suc m)" by (auto simp: hit_iff)
  from match_hex_parts [OF m] have st: "wordb p (nth_opt s 0)" and k40: "40 \<le> Suc m"
    and k: "Suc m \<le> length (takeWhile is_hex s)" by simp_all
  from match_hex_bound [OF m] have len: "Suc m \<le> length s"
    and nxt: "case drop (Suc m) s of [] \<Rightarrow> True | d # ds \<Rightarrow> \<not> is_word d" by simp_all
  have "0 < length (takeWhile is_hex s)" using k by linarith
  from hex_run_nth [OF this] have "word_opt (nth_opt s 0)" by (simp add: hex_is_word)
  with st have np: "\<not> word_opt p" by (simp add: wordb_def)
  have "take (Suc m) s = take (Suc m) (takeWhile is_hex s @ dropWhile is_hex s)" by simp
  also have "\<dots> = take (Suc m) (takeWhile is_hex s)"
    using k by (simp del: takeWhile_dropWhile_id)
  finally have "set (take (Suc m) s) \<subseteq> set (takeWhile is_hex s)"
    by (metis set_take_subset)
  then have "list_all is_hex (take (Suc m) s)"
    by (auto simp: list_all_iff dest: set_takeWhileD)
  moreover have "s = take (Suc m) s @ drop (Suc m) s" by simp
  moreover have "40 \<le> length (take (Suc m) s)" using k40 len by simp
  ultimately show "\<not> word_opt p \<and>
     (\<exists>h rest. s = h @ rest \<and> 40 \<le> length h \<and> list_all is_hex h \<and>
        (case rest of [] \<Rightarrow> True | d # ds \<Rightarrow> \<not> is_word d))"
    using np nxt by blast
next
  assume "\<not> word_opt p \<and>
     (\<exists>h rest. s = h @ rest \<and> 40 \<le> length h \<and> list_all is_hex h \<and>
        (case rest of [] \<Rightarrow> True | d # ds \<Rightarrow> \<not> is_word d))"
  then obtain h rest where np: "\<not> word_opt p" and s: "s = h @ rest" and h40: "40 \<le> length h"
    and hex: "list_all is_hex h" and nxt: "case rest of [] \<Rightarrow> True | d # ds \<Rightarrow> \<not> is_word d"
    by blast
  have "takeWhile is_hex rest = []"
    using nxt by (cases rest) (auto dest: hex_is_word)
  then have run: "takeWhile is_hex s = h"
    using hex by (simp add: s list_all_iff)
  obtain c h' where h: "h = c # h'" using h40 by (cases h) auto
  have "is_hex c" using hex h by simp
  then have st: "wordb p (nth_opt s 0)" using np by (simp add: s h wordb_def hex_is_word)
  have "is_hex (last h)" using hex h by (metis last_in_set list.distinct(1) list_all_iff)
  moreover have "nth_opt s (length h - 1) = Some (last h)"
    using h by (simp add: s nth_opt_def nth_append last_conv_nth)
  moreover have "\<not> word_opt (nth_opt s (length h))"
    using nxt by (cases rest) (simp_all add: s nth_opt_def)
  ultimately have ok: "wordb (nth_opt s (length h - 1)) (nth_opt s (length h))"
    by (simp add: wordb_def hex_is_word)
  have "backtrack (\<lambda>k. wordb (nth_opt s (k - 1)) (nth_opt s k)) 40 (length h) = Some (length h)"
    using h40 ok by (auto simp: backtrack_Some_iff)
  then have "match_hex p s = Some (length h)"
    using st by (simp add: match_hex_def run)
  then show "hit match_hex p s" using h by (simp add: hit_iff)
qed

section \<open>Copied prefixes\<close>

lemma replace_from_prefix:
  assumes "r \<noteq> []" and "hd r \<notin> set u" and "replace_from m r p 0 s = u @ out"
  shows "\<exists>s'. s = u @ s' \<and> out = replace_from m r (last_or p u) 0 s'"
  using assms(2,3)
proof (induction u arbitrary: s p)
  case Nil
  then show ?case by (simp add: last_or_def)
next
  case (Cons a u)
  show ?case
  proof (cases s)
    case Nil
    with Cons.prems show ?thesis by simp
  next
    case s: (Cons c cs)
    have nohit: "\<not> hit m p (c # cs)"
    proof
      assume "hit m p (c # cs)"
      then obtain n where "m p (c # cs) = Some (Suc n)" by (auto simp: hit_iff)
      then have "replace_from m r p 0 (c # cs) = r @ replace_from m r (Some c) n cs"
        by (rule replace_from_hit)
      with Cons.prems(2) s have "r @ replace_from m r (Some c) n cs = a # u @ out" by simp
      with assms(1) have "hd r = a" by (cases r) auto
      with Cons.prems(1) show False by simp
    qed
    then have "replace_from m r p 0 (c # cs) = c # replace_from m r (Some c) 0 cs"
      by (rule replace_from_copy)
    with Cons.prems(2) s have ca: "c = a" and rest: "replace_from m r (Some c) 0 cs = u @ out"
      by simp_all
    from Cons.prems(1) have "hd r \<notin> set u" by simp
    from Cons.IH [OF this rest] obtain s' where "cs = u @ s'"
      "out = replace_from m r (last_or (Some c) u) 0 s'" by blast
    moreover have "last_or (Some c) u = last_or p (a # u)"
      using ca by (simp add: last_or_def)
    ultimately show ?thesis using s ca by simp
  qed
qed

lemma bearer_replace_token_prefix:
  assumes "list_all is_token u"
    and "replace_from match_bearer (''Bearer '' @ REDACTED) p 0 s = u @ out"
  shows "\<exists>s'. s = u @ s'"
  using assms
proof (induction s arbitrary: u p out)
  case Nil
  then show ?case by simp
next
  case (Cons c cs)
  show ?case
  proof (cases "hit match_bearer p (c # cs)")
    case True
    then obtain n where n: "match_bearer p (c # cs) = Some (Suc n)" by (auto simp: hit_iff)
    from match_bearer_parts(1) [OF n] have tk: "take 6 (c # cs) = ''Bearer''" .
    then have s: "c # cs = ''Bearer'' @ drop 6 (c # cs)" by (metis append_take_drop_id)
    from n have "replace_from match_bearer (''Bearer '' @ REDACTED) p 0 (c # cs) =
        (''Bearer '' @ REDACTED) @ replace_from match_bearer (''Bearer '' @ REDACTED) (Some c) n cs"
      by (rule replace_from_hit)
    with Cons.prems(2) obtain y where y: "u @ out = ''Bearer'' @ CHR '' '' # y" by simp
    then obtain z where "(u = ''Bearer'' @ z \<and> z @ out = CHR '' '' # y) \<or>
        (u @ z = ''Bearer'' \<and> out = z @ CHR '' '' # y)"
      unfolding append_eq_append_conv2 by blast
    then show ?thesis
    proof
      assume a: "u = ''Bearer'' @ z \<and> z @ out = CHR '' '' # y"
      have "z = []"
      proof (cases z)
        case Nil
        then show ?thesis .
      next
        case (Cons d z')
        with a have "d = CHR '' ''" by simp
        with Cons a Cons.prems(1) have "is_token (CHR '' '')" by simp
        then show ?thesis by (simp add: is_token_code is_word_code is_digit_code is_upper_code is_lower_code)
      qed
      with a have "u = ''Bearer''" by simp
      with s show ?thesis by metis
    next
      assume "u @ z = ''Bearer'' \<and> out = z @ CHR '' '' # y"
      then have "c # cs = u @ z @ drop 6 (c # cs)" using s by (metis append.assoc)
      then show ?thesis by blast
    qed
  next
    case False
    then have out: "replace_from match_bearer (''Bearer '' @ REDACTED) p 0 (c # cs) =
        c # replace_from match_bearer (''Bearer '' @ REDACTED) (Some c) 0 cs"
      by (rule replace_from_copy)
    show ?thesis
    proof (cases u)
      case Nil
      then show ?thesis by simp
    next
      case u: (Cons a u')
      with Cons.prems(2) out have ca: "c = a"
        and rest: "replace_from match_bearer (''Bearer '' @ REDACTED) (Some c) 0 cs = u' @ out"
        by simp_all
      from Cons.prems(1) u have "list_all is_token u'" by simp
      from Cons.IH [OF this rest] obtain s' where "cs = u' @ s'" by blast
      with u ca show ?thesis by simp
    qed
  qed
qed

lemma match_token_hd:
  assumes "token_lit lit" and "hit (match_token lit) q s"
  shows "\<exists>cs. s = hd lit # cs"
proof -
  from assms obtain a b rest where "s = lit @ a @ b # rest"
    by (auto simp: match_token_hit_iff)
  moreover from assms(1) obtain c lit' where "lit = c # lit'"
    by (cases lit) (auto simp: token_lit_def)
  ultimately show ?thesis by simp
qed

lemma match_bearer_hd: "hit match_bearer q s \<Longrightarrow> \<exists>cs. s = CHR ''B'' # cs"
  by (auto simp: match_bearer_hit_iff)

lemma match_hex_hd:
  assumes "hit match_hex q s"
  shows "\<exists>c cs. s = c # cs \<and> is_hex c"
proof -
  from assms obtain h rest where s: "s = h @ rest" and "40 \<le> length h" and hex: "list_all is_hex h"
    by (auto simp: match_hex_hit_iff)
  then obtain c h' where "h = c # h'" by (cases h) auto
  with s hex show ?thesis by simp
qed

lemma bracket_classes:
  "\<not> is_token (CHR ''['')" "\<not> is_space (CHR ''['')" "\<not> is_hex (CHR ''['')" "\<not> is_word (CHR ''['')"
  "\<not> is_hex (CHR '']'')" "is_token (CHR ''B'')" "is_word (CHR ''B'')" "\<not> is_space (CHR ''B'')"
  "is_space (CHR '' '')" "\<not> is_token (CHR '' '')"
  by (simp_all add: is_token_code is_word_code is_digit_code is_upper_code is_lower_code
      is_hex_code is_space_code)

lemma hd_REDACTED: "REDACTED \<noteq> []" "hd REDACTED = CHR ''[''"
  by (simp_all add: REDACTED_def)

lemma token_copy_redacted:
  assumes lit: "token_lit lit" and no: "\<not> hit (match_token lit) p (c # cs)"
  shows "\<not> hit (match_token lit) p (c # replace_from m REDACTED (Some c) 0 cs)"
proof
  assume "hit (match_token lit) p (c # replace_from m REDACTED (Some c) 0 cs)"
  then obtain a b rest where np: "\<not> word_opt p"
    and y: "c # replace_from m REDACTED (Some c) 0 cs = lit @ a @ b # rest"
    and a: "list_all is_token a" and b: "is_word b"
    using lit by (auto simp: match_token_hit_iff)
  from lit obtain c0 lit' where l: "lit = c0 # lit'" and lt: "list_all is_token lit'"
    by (cases lit) (auto simp: token_lit_def)
  from y l have c: "c = c0" and out: "replace_from m REDACTED (Some c) 0 cs = (lit' @ a @ [b]) @ rest"
    by auto
  have "list_all is_token (lit' @ a @ [b])" using lt a b by (simp add: word_is_token)
  then have "hd REDACTED \<notin> set (lit' @ a @ [b])"
    using bracket_classes(1) unfolding hd_REDACTED list_all_iff by blast
  from replace_from_prefix [OF hd_REDACTED(1) this out] obtain s' where "cs = (lit' @ a @ [b]) @ s'"
    by blast
  with l c have "c # cs = lit @ a @ b # s'" by simp
  with np a b lit have "hit (match_token lit) p (c # cs)"
    by (auto simp: match_token_hit_iff)
  with no show False ..
qed

lemma token_copy_bearer:
  assumes lit: "token_lit lit" and no: "\<not> hit (match_token lit) p (c # cs)"
  shows "\<not> hit (match_token lit) p
           (c # replace_from match_bearer (''Bearer '' @ REDACTED) (Some c) 0 cs)"
proof
  assume "hit (match_token lit) p
           (c # replace_from match_bearer (''Bearer '' @ REDACTED) (Some c) 0 cs)"
  then obtain a b rest where np: "\<not> word_opt p"
    and y: "c # replace_from match_bearer (''Bearer '' @ REDACTED) (Some c) 0 cs = lit @ a @ b # rest"
    and a: "list_all is_token a" and b: "is_word b"
    using lit by (auto simp: match_token_hit_iff)
  from lit obtain c0 lit' where l: "lit = c0 # lit'" and lt: "list_all is_token lit'"
    by (cases lit) (auto simp: token_lit_def)
  from y l have c: "c = c0"
    and out: "replace_from match_bearer (''Bearer '' @ REDACTED) (Some c) 0 cs = (lit' @ a @ [b]) @ rest"
    by auto
  have "list_all is_token (lit' @ a @ [b])" using lt a b by (simp add: word_is_token)
  from bearer_replace_token_prefix [OF this out] obtain s' where "cs = (lit' @ a @ [b]) @ s'"
    by blast
  with l c have "c # cs = lit @ a @ b # s'" by simp
  with np a b lit have "hit (match_token lit) p (c # cs)"
    by (auto simp: match_token_hit_iff)
  with no show False ..
qed

lemma bearer_copy_redacted:
  assumes no: "\<not> hit match_bearer p (c # cs)"
  shows "\<not> hit match_bearer p (c # replace_from m REDACTED (Some c) 0 cs)"
proof
  assume "hit match_bearer p (c # replace_from m REDACTED (Some c) 0 cs)"
  then obtain ws t rest where
    y: "c # replace_from m REDACTED (Some c) 0 cs = ''Bearer'' @ ws @ t # rest"
    and ws: "ws \<noteq> []" and sp: "list_all is_space ws" and t: "is_token t"
    by (auto simp: match_bearer_hit_iff)
  from y have c: "c = CHR ''B''"
    and out: "replace_from m REDACTED (Some c) 0 cs = (''earer'' @ ws @ [t]) @ rest"
    by auto
  have "CHR ''['' \<notin> set ws" using sp bracket_classes(2) unfolding list_all_iff by blast
  moreover have "CHR ''['' \<noteq> t" using t bracket_classes(1) by blast
  ultimately have "hd REDACTED \<notin> set (''earer'' @ ws @ [t])"
    unfolding hd_REDACTED by simp
  from replace_from_prefix [OF hd_REDACTED(1) this out] obtain s' where
    "cs = (''earer'' @ ws @ [t]) @ s'" by blast
  with c have "c # cs = ''Bearer'' @ ws @ t # s'" by simp
  with ws sp t have "hit match_bearer p (c # cs)"
    unfolding match_bearer_hit_iff by blast
  with no show False ..
qed

lemma bearer_copy_bearer:
  assumes no: "\<not> hit match_bearer p (c # cs)"
  shows "\<not> hit match_bearer p
           (c # replace_from match_bearer (''Bearer '' @ REDACTED) (Some c) 0 cs)"
proof
  let ?r = "''Bearer '' @ REDACTED"
  assume "hit match_bearer p (c # replace_from match_bearer ?r (Some c) 0 cs)"
  then obtain ws t rest where
    y: "c # replace_from match_bearer ?r (Some c) 0 cs = ''Bearer'' @ ws @ t # rest"
    and ws: "ws \<noteq> []" and sp: "list_all is_space ws" and t: "is_token t"
    by (auto simp: match_bearer_hit_iff)
  from y have c: "c = CHR ''B''"
    and out: "replace_from match_bearer ?r (Some c) 0 cs = (''earer'' @ ws) @ t # rest"
    by auto
  have r: "?r \<noteq> []" "hd ?r = CHR ''B''" by simp_all
  have "CHR ''B'' \<notin> set ws" using sp bracket_classes(8) unfolding list_all_iff by blast
  then have "hd ?r \<notin> set (''earer'' @ ws)" unfolding r(2) by simp
  from replace_from_prefix [OF r(1) this out] obtain s' where cs: "cs = (''earer'' @ ws) @ s'"
    and o: "t # rest = replace_from match_bearer ?r (last_or (Some c) (''earer'' @ ws)) 0 s'"
    by blast
  obtain d ds where s': "s' = d # ds" using o by (cases s') auto
  have "is_token d"
  proof (cases "hit match_bearer (last_or (Some c) (''earer'' @ ws)) (d # ds)")
    case True
    then have "d = CHR ''B''" by (auto dest: match_bearer_hd)
    then show ?thesis by (simp add: bracket_classes)
  next
    case False
    then have "replace_from match_bearer ?r (last_or (Some c) (''earer'' @ ws)) 0 (d # ds) =
       d # replace_from match_bearer ?r (Some d) 0 ds"
      by (rule replace_from_copy)
    with o s' have "d = t" by simp
    with t show ?thesis by simp
  qed
  moreover from cs c s' have "c # cs = ''Bearer'' @ ws @ d # ds" by simp
  ultimately have "hit match_bearer p (c # cs)"
    using ws sp unfolding match_bearer_hit_iff by blast
  with no show False ..
qed

lemma hex_copy_hex:
  assumes no: "\<not> hit match_hex p (c # cs)"
  shows "\<not> hit match_hex p (c # replace_from match_hex REDACTED (Some c) 0 cs)"
proof
  assume "hit match_hex p (c # replace_from match_hex REDACTED (Some c) 0 cs)"
  then obtain h rest where np: "\<not> word_opt p"
    and y: "c # replace_from match_hex REDACTED (Some c) 0 cs = h @ rest"
    and h40: "40 \<le> length h" and hex: "list_all is_hex h"
    and nxt: "case rest of [] \<Rightarrow> True | d # ds \<Rightarrow> \<not> is_word d"
    by (auto simp: match_hex_hit_iff)
  from h40 obtain c0 h' where h: "h = c0 # h'" by (cases h) auto
  with y have c: "c = c0" and out: "replace_from match_hex REDACTED (Some c) 0 cs = h' @ rest"
    by auto
  have "hd REDACTED \<notin> set h'"
    using hex h bracket_classes(3) unfolding hd_REDACTED list_all_iff by auto
  from replace_from_prefix [OF hd_REDACTED(1) this out] obtain s' where cs: "cs = h' @ s'"
    and o: "rest = replace_from match_hex REDACTED (last_or (Some c) h') 0 s'"
    by blast
  have "\<exists>l. last_or (Some c) h' = Some l \<and> is_hex l"
    using hex h c by (cases "h' = []") (auto simp: last_or_def list_all_iff)
  then obtain l where l: "last_or (Some c) h' = Some l" and "is_hex l" by blast
  then have lw: "word_opt (Some l)" by (simp add: hex_is_word)
  have "case s' of [] \<Rightarrow> True | d # ds \<Rightarrow> \<not> is_word d"
  proof (cases s')
    case Nil
    then show ?thesis by simp
  next
    case (Cons d ds)
    have "\<not> hit match_hex (Some l) (d # ds)" using lw by (simp add: match_hex_hit_iff)
    then have "replace_from match_hex REDACTED (Some l) 0 (d # ds) =
        d # replace_from match_hex REDACTED (Some d) 0 ds"
      by (rule replace_from_copy)
    with o l Cons nxt show ?thesis by simp
  qed
  moreover have "c # cs = h @ s'" using h c cs by simp
  ultimately have "hit match_hex p (c # cs)"
    using np h40 hex unfolding match_hex_hit_iff by blast
  with no show False ..
qed

lemma occurs_within_hd:
  assumes "\<And>q s. Q q s \<Longrightarrow> \<exists>cs. s = b # cs" and "b \<notin> set r"
  shows "\<not> occurs_within Q p r x"
  using assms(2)
proof (induction r arbitrary: p)
  case Nil
  show ?case by simp
next
  case (Cons c r)
  have "\<not> Q p (c # r @ x)"
  proof
    assume "Q p (c # r @ x)"
    from assms(1) [OF this] Cons.prems show False by simp
  qed
  with Cons show ?case by simp
qed

lemma bearer_not_at_replacement: "\<not> hit match_bearer p ((''Bearer '' @ REDACTED) @ x)"
  by (simp add: hit_def match_bearer_def REDACTED_def bracket_classes)

lemma hex_within_short:
  assumes "length r \<le> 40" and "r \<noteq> [] \<Longrightarrow> \<not> is_hex (last r)"
  shows "\<not> occurs_within (hit match_hex) p r x"
  using assms
proof (induction r arbitrary: p)
  case Nil
  show ?case by simp
next
  case (Cons c r)
  have "\<not> hit match_hex p (c # r @ x)"
  proof
    assume "hit match_hex p (c # r @ x)"
    then obtain h rest where e: "(c # r) @ x = h @ rest" and h40: "40 \<le> length h"
      and hex: "list_all is_hex h"
      by (auto simp: match_hex_hit_iff)
    from e Cons.prems(1) h40 have "take (length (c # r)) h = c # r"
      by (metis append_eq_conv_conj le_trans take_append take_all_iff order_refl append_Nil2 take_take min.absorb1)
    then have "set (c # r) \<subseteq> set h" by (metis set_take_subset)
    with hex have "is_hex (last (c # r))"
      unfolding list_all_iff by (metis last_in_set list.distinct(1) subsetD)
    with Cons.prems(2) show False by simp
  qed
  moreover have "\<not> occurs_within (hit match_hex) (Some c) r x"
    using Cons.prems by (intro Cons.IH) (auto split: if_splits)
  ultimately show ?case by simp
qed

section \<open>The sanitized message\<close>

lemma occurs_mono:
  "\<not> occurs Q p s \<Longrightarrow> (\<And>p s. Q' p s \<Longrightarrow> Q p s) \<Longrightarrow> \<not> occurs Q' p s"
  by (induction s arbitrary: p) auto

lemma occurs_False: "\<not> occurs (\<lambda>p s. Q p s \<and> \<not> Q p s) p s"
  by (induction s arbitrary: p) auto

lemma token_lit_facts:
  assumes "token_lit lit"
  shows "is_word (hd lit)" "is_token (hd lit)" "hd lit \<notin> set REDACTED"
    "hd lit \<notin> set (''Bearer '' @ REDACTED)"
  using assms by (auto simp: token_lit_def word_is_token)

lemma token_survives_token:
  assumes lit: "token_lit lit" and lit': "token_lit lit'"
    and "\<not> occurs (\<lambda>p s. hit (match_token lit) p s \<and> \<not> hit (match_token lit') p s) p s"
  shows "\<not> occurs (hit (match_token lit)) p (replace_from (match_token lit') REDACTED p 0 s)"
proof (rule replace_clears [where D = "\<lambda>d. \<not> is_word d"])
  show "Suc n \<le> length s \<and> (case drop (Suc n) s of [] \<Rightarrow> True | d # ds \<Rightarrow> \<not> is_word d)"
    if "match_token lit' p s = Some (Suc n)" for p s n
    using lit' that by (rule match_token_bound)
  show "\<not> hit (match_token lit') q (d # ds)" if "\<not> is_word d" for d q ds
    using match_token_hd [OF lit', of q "d # ds"] token_lit_facts(1) [OF lit'] that by auto
  show "\<not> hit (match_token lit) q (d # y)" if "\<not> is_word d" for d q y
    using match_token_hd [OF lit, of q "d # y"] token_lit_facts(1) [OF lit] that by auto
  show "\<not> occurs_within (hit (match_token lit)) p REDACTED x" for p x
    using match_token_hd [OF lit] token_lit_facts(3) [OF lit] by (rule occurs_within_hd)
  show "\<not> hit (match_token lit) p (c # replace_from (match_token lit') REDACTED (Some c) 0 cs)"
    if "\<not> hit (match_token lit') p (c # cs)" "\<not> hit (match_token lit) p (c # cs)" for p c cs
    using lit that(2) by (rule token_copy_redacted)
  show "\<not> occurs (\<lambda>p s. hit (match_token lit) p s \<and> \<not> hit (match_token lit') p s) p s"
    by (rule assms(3))
qed

lemma token_survives_bearer:
  assumes lit: "token_lit lit"
    and "\<not> occurs (hit (match_token lit)) p s"
  shows "\<not> occurs (hit (match_token lit)) p
           (replace_from match_bearer (''Bearer '' @ REDACTED) p 0 s)"
proof (rule replace_clears [where D = "\<lambda>d. \<not> is_token d"])
  show "Suc n \<le> length s \<and> (case drop (Suc n) s of [] \<Rightarrow> True | d # ds \<Rightarrow> \<not> is_token d)"
    if "match_bearer p s = Some (Suc n)" for p s n
    using that by (rule match_bearer_bound)
  show "\<not> hit match_bearer q (d # ds)" if "\<not> is_token d" for d q ds
    using match_bearer_hd [of q "d # ds"] bracket_classes(6) that by auto
  show "\<not> hit (match_token lit) q (d # y)" if "\<not> is_token d" for d q y
    using match_token_hd [OF lit, of q "d # y"] token_lit_facts(2) [OF lit] that by auto
  show "\<not> occurs_within (hit (match_token lit)) p (''Bearer '' @ REDACTED) x" for p x
    using match_token_hd [OF lit] token_lit_facts(4) [OF lit] by (rule occurs_within_hd)
  show "\<not> hit (match_token lit) p
          (c # replace_from match_bearer (''Bearer '' @ REDACTED) (Some c) 0 cs)"
    if "\<not> hit match_bearer p (c # cs)" "\<not> hit (match_token lit) p (c # cs)" for p c cs
    using lit that(2) by (rule token_copy_bearer)
  show "\<not> occurs (\<lambda>p s. hit (match_token lit) p s \<and> \<not> hit match_bearer p s) p s"
    using assms(2) by (rule occurs_mono) simp
qed

lemma token_survives_hex:
  assumes lit: "token_lit lit"
    and "\<not> occurs (hit (match_token lit)) p s"
  shows "\<not> occurs (hit (match_token lit)) p (replace_from match_hex REDACTED p 0 s)"
proof (rule replace_clears [where D = "\<lambda>d. \<not> is_word d"])
  show "Suc n \<le> length s \<and> (case drop (Suc n) s of [] \<Rightarrow> True | d # ds \<Rightarrow> \<not> is_word d)"
    if "match_hex p s = Some (Suc n)" for p s n
    using that by (rule match_hex_bound)
  show "\<not> hit match_hex q (d # ds)" if "\<not> is_word d" for d q ds
    using match_hex_hd [of q "d # ds"] that by (auto dest: hex_is_word)
  show "\<not> hit (match_token lit) q (d # y)" if "\<not> is_word d" for d q y
    using match_token_hd [OF lit, of q "d # y"] token_lit_facts(1) [OF lit] that by auto
  show "\<not> occurs_within (hit (match_token lit)) p REDACTED x" for p x
    using match_token_hd [OF lit] token_lit_facts(3) [OF lit] by (rule occurs_within_hd)
  show "\<not> hit (match_token lit) p (c # replace_from match_hex REDACTED (Some c) 0 cs)"
    if "\<not> hit match_hex p (c # cs)" "\<not> hit (match_token lit) p (c # cs)" for p c cs
    using lit that(2) by (rule token_copy_redacted)
  show "\<not> occurs (\<lambda>p s. hit (match_token lit) p s \<and> \<not> hit match_hex p s) p s"
    using assms(2) by (rule occurs_mono) simp
qed

lemma bearer_cleared:
  "\<not> occurs (hit match_bearer) p (replace_from match_bearer (''Bearer '' @ REDACTED) p 0 s)"
proof (rule replace_clears [where D = "\<lambda>d. \<not> is_token d"])
  show "Suc n \<le> length s \<and> (case drop (Suc n) s of [] \<Rightarrow> True | d # ds \<Rightarrow> \<not> is_token d)"
    if "match_bearer p s = Some (Suc n)" for p s n
    using that by (rule match_bearer_bound)
  show "\<not> hit match_bearer q (d # ds)" if "\<not> is_token d" for d q ds
    using match_bearer_hd [of q "d # ds"] bracket_classes(6) that by auto
  then show "\<not> hit match_bearer q (d # ds)" if "\<not> is_token d" for d q ds
    using that .
  show "\<not> occurs_within (hit match_bearer) p (''Bearer '' @ REDACTED) x" for p x
  proof -
    have "\<not> occurs_within (hit match_bearer) (Some (CHR ''B'')) (''earer '' @ REDACTED) x"
      by (rule occurs_within_hd [where b = "CHR ''B''"])
        (auto dest: match_bearer_hd simp: REDACTED_def)
    moreover have "\<not> hit match_bearer p (CHR ''B'' # (''earer '' @ REDACTED) @ x)"
      using bearer_not_at_replacement [of p x] by simp
    ultimately show ?thesis by simp
  qed
  show "\<not> hit match_bearer p (c # replace_from match_bearer (''Bearer '' @ REDACTED) (Some c) 0 cs)"
    if "\<not> hit match_bearer p (c # cs)" for p c cs
    using that by (rule bearer_copy_bearer)
  show "\<not> occurs (\<lambda>p s. hit match_bearer p s \<and> \<not> hit match_bearer p s) p s"
    by (rule occurs_False)
qed

lemma bearer_survives_hex:
  assumes "\<not> occurs (hit match_bearer) p s"
  shows "\<not> occurs (hit match_bearer) p (replace_from match_hex REDACTED p 0 s)"
proof (rule replace_clears [where D = "\<lambda>d. \<not> is_word d"])
  show "Suc n \<le> length s \<and> (case drop (Suc n) s of [] \<Rightarrow> True | d # ds \<Rightarrow> \<not> is_word d)"
    if "match_hex p s = Some (Suc n)" for p s n
    using that by (rule match_hex_bound)
  show "\<not> hit match_hex q (d # ds)" if "\<not> is_word d" for d q ds
    using match_hex_hd [of q "d # ds"] that by (auto dest: hex_is_word)
  show "\<not> hit match_bearer q (d # y)" if "\<not> is_word d" for d q y
    using match_bearer_hd [of q "d # y"] bracket_classes(7) that by auto
  show "\<not> occurs_within (hit match_bearer) p REDACTED x" for p x
    by (rule occurs_within_hd [where b = "CHR ''B''"])
      (auto dest: match_bearer_hd simp: REDACTED_def)
  show "\<not> hit match_bearer p (c # replace_from match_hex REDACTED (Some c) 0 cs)"
    if "\<not> hit match_hex p (c # cs)" "\<not> hit match_bearer p (c # cs)" for p c cs
    using that(2) by (rule bearer_copy_redacted)
  show "\<not> occurs (\<lambda>p s. hit match_bearer p s \<and> \<not> hit match_hex p s) p s"
    using assms by (rule occurs_mono) simp
qed

lemma hex_cleared:
  "\<not> occurs (hit match_hex) p (replace_from match_hex REDACTED p 0 s)"
proof (rule replace_clears [where D = "\<lambda>d. \<not> is_word d"])
  show "Suc n \<le> length s \<and> (case drop (Suc n) s of [] \<Rightarrow> True | d # ds \<Rightarrow> \<not> is_word d)"
    if "match_hex p s = Some (Suc n)" for p s n
    using that by (rule match_hex_bound)
  show "\<not> hit match_hex q (d # ds)" if "\<not> is_word d" for d q ds
    using match_hex_hd [of q "d # ds"] that by (auto dest: hex_is_word)
  then show "\<not> hit match_hex q (d # ds)" if "\<not> is_word d" for d q ds
    using that .
  show "\<not> occurs_within (hit match_hex) p REDACTED x" for p x
    by (rule hex_within_short) (simp_all add: REDACTED_def bracket_classes)
  show "\<not> hit match_hex p (c # replace_from match_hex REDACTED (Some c) 0 cs)"
    if "\<not> hit match_hex p (c # cs)" for p c cs
    using that by (rule hex_copy_hex)
  show "\<not> occurs (\<lambda>p s. hit match_hex p s \<and> \<not> hit match_hex p s) p s"
    by (rule occurs_False)
qed

lemma token_lit_ntn: "token_lit ''ntn_''"
  by (simp add: token_lit_def REDACTED_def is_token_code is_word_code is_digit_code
      is_upper_code is_lower_code)

lemma token_lit_secret: "token_lit ''secret_''"
  by (simp add: token_lit_def REDACTED_def is_token_code is_word_code is_digit_code
      is_upper_code is_lower_code)

lemma token_cleared:
  assumes lit: "token_lit lit" and lit': "token_lit lit'"
  shows "\<not> has_match (match_token lit)
           (replace_g match_hex REDACTED
              (replace_g match_bearer (''Bearer '' @ REDACTED)
                 (replace_g (match_token lit') REDACTED
                    (replace_g (match_token lit) REDACTED s))))"
proof -
  let ?s1 = "replace_g (match_token lit) REDACTED s"
  let ?s2 = "replace_g (match_token lit') REDACTED ?s1"
  let ?s3 = "replace_g match_bearer (''Bearer '' @ REDACTED) ?s2"
  have 1: "\<not> occurs (hit (match_token lit)) None ?s1"
    unfolding replace_g_def using lit lit by (rule token_survives_token) (rule occurs_False)
  have "\<not> occurs (\<lambda>p s. hit (match_token lit) p s \<and> \<not> hit (match_token lit') p s) None ?s1"
    using 1 by (rule occurs_mono) simp
  with lit lit' have 2: "\<not> occurs (hit (match_token lit)) None ?s2"
    unfolding replace_g_def [of "match_token lit'"] by (rule token_survives_token)
  from lit 2 have 3: "\<not> occurs (hit (match_token lit)) None ?s3"
    unfolding replace_g_def [of match_bearer] by (rule token_survives_bearer)
  from lit 3 show ?thesis
    unfolding has_match_def replace_g_def [of match_hex] by (rule token_survives_hex)
qed

lemma secret_cleared:
  assumes lit: "token_lit lit"
  shows "\<not> has_match (match_token lit)
           (replace_g match_hex REDACTED
              (replace_g match_bearer (''Bearer '' @ REDACTED)
                 (replace_g (match_token lit) REDACTED s)))"
proof -
  let ?s2 = "replace_g (match_token lit) REDACTED s"
  let ?s3 = "replace_g match_bearer (''Bearer '' @ REDACTED) ?s2"
  have 2: "\<not> occurs (hit (match_token lit)) None ?s2"
    unfolding replace_g_def using lit lit by (rule token_survives_token) (rule occurs_False)
  from lit 2 have 3: "\<not> occurs (hit (match_token lit)) None ?s3"
    unfolding replace_g_def [of match_bearer] by (rule token_survives_bearer)
  from lit 3 show ?thesis
    unfolding has_match_def replace_g_def [of match_hex] by (rule token_survives_hex)
qed

lemma bearer_token_cleared:
  "\<not> has_match match_bearer
      (replace_g match_hex REDACTED (replace_g match_bearer (''Bearer '' @ REDACTED) s))"
proof -
  have "\<not> occurs (hit match_bearer) None (replace_g match_bearer (''Bearer '' @ REDACTED) s)"
    unfolding replace_g_def by (rule bearer_cleared)
  then show ?thesis
    unfolding has_match_def replace_g_def [of match_hex] by (rule bearer_survives_hex)
qed

lemma hex_run_cleared: "\<not> has_match match_hex (replace_g match_hex REDACTED s)"
  unfolding has_match_def replace_g_def by (rule hex_cleared)

text \<open>
  C9 (amended). The message of a \<open>CliError\<close>, and of each of its subclasses, is the
  sanitized message text, and the sanitized text contains no match of any of the four
  expressions: no \<open>ntn_\<close> or \<open>secret_\<close> token and no run of 40 or more hexadecimal digits
  that stands between word boundaries, and no \<open>Bearer\<close> followed by white space and a
  token.
\<close>

theorem sanitized_message_has_no_match:
  "message (new_CliError msg c e) = sanitizeMessage msg
   \<and> message (new_AuthError msg) = sanitizeMessage msg
   \<and> message (new_ValidationError msg) = sanitizeMessage msg
   \<and> message (new_PatchConflictError msg) = sanitizeMessage msg
   \<and> message (new_NotFoundError resource ident) = sanitizeMessage (resource @ '' not found: '' @ ident)
   \<and> message (new_RateLimitError ms) =
       sanitizeMessage (''Rate limited by Notion API. Retry after '' @ String_int (ceil_div ms 1000) @ ''s.'')
   \<and> \<not> has_match (match_token ''ntn_'') (sanitizeMessage msg)
   \<and> \<not> has_match (match_token ''secret_'') (sanitizeMessage msg)
   \<and> \<not> has_match match_bearer (sanitizeMessage msg)
   \<and> \<not> has_match match_hex (sanitizeMessage msg)"
proof -
  have "\<not> has_match (match_token ''ntn_'') (sanitizeMessage msg)"
    unfolding sanitizeMessage_def using token_lit_ntn token_lit_secret by (rule token_cleared)
  moreover have "\<not> has_match (match_token ''secret_'') (sanitizeMessage msg)"
    unfolding sanitizeMessage_def using token_lit_secret by (rule secret_cleared)
  moreover have "\<not> has_match match_bearer (sanitizeMessage msg)"
    unfolding sanitizeMessage_def by (rule bearer_token_cleared)
  moreover have "\<not> has_match match_hex (sanitizeMessage msg)"
    unfolding sanitizeMessage_def by (rule hex_run_cleared)
  ultimately show ?thesis
    by (simp add: new_CliError_def new_AuthError_def new_ValidationError_def
        new_PatchConflictError_def new_NotFoundError_def new_RateLimitError_def)
qed

text \<open>
  A token or a hexadecimal string that directly follows a letter, a digit or an underscore
  does not start at a word boundary, and in these two messages it stays.
\<close>

theorem glued_secret_counterexample:
  "message (new_CliError ''see my_ntn_abc123'' ''GENERAL_ERROR'' GENERAL_ERROR) = ''see my_ntn_abc123''
   \<and> includes_str ''see my_ntn_abc123'' ''ntn_abc123''
   \<and> message (new_CliError ''id_0123456789abcdef0123456789abcdef01234567'' ''GENERAL_ERROR'' GENERAL_ERROR) =
       ''id_0123456789abcdef0123456789abcdef01234567''
   \<and> has_hex_run 40 ''id_0123456789abcdef0123456789abcdef01234567''"
  by code_simp

end
